theory Spec2Isabelle
  imports Complex_Main "HOL-Library.Sublist" "HOL-Library.AList"
begin

section \<open>JavaScript values\<close>

text \<open>
  The values a document field or a score can hold. A number is a real (\<open>JNum\<close>) or
  \<open>NaN\<close> (\<open>JNaN\<close>): the rounding of IEEE doubles is not modelled, and the infinities
  are not among the values (a score is never one; where scores are computed the range of
  doubles is modelled, see \<open>Math_exp\<close>). Field values are primitives; nested objects and
  arrays are not modelled.
\<close>

datatype jsval = JUndefined | JNull | JBool bool | JNum real | JNaN | JStr string

text \<open>An object is a finite map from property names to values.\<close>

type_synonym jsobject = "string \<rightharpoonup> jsval"

text \<open>Property access \<open>obj.k\<close>: a missing property reads as \<open>undefined\<close>.\<close>

definition get_prop :: "jsobject \<Rightarrow> string \<Rightarrow> jsval" where
  "get_prop obj k = (case obj k of None \<Rightarrow> JUndefined | Some v \<Rightarrow> v)"

text \<open>
  \<open>ToNumber\<close> of the language: \<open>None\<close> stands for \<open>NaN\<close>. The conversion of a string
  (\<open>StringToNumber\<close> of the language standard) is a parameter \<open>s2n\<close>.
\<close>

fun ToNumber :: "(string \<Rightarrow> real option) \<Rightarrow> jsval \<Rightarrow> real option" where
  "ToNumber s2n JUndefined = None"
| "ToNumber s2n JNull = Some 0"
| "ToNumber s2n (JBool b) = Some (if b then 1 else 0)"
| "ToNumber s2n (JNum r) = Some r"
| "ToNumber s2n JNaN = None"
| "ToNumber s2n (JStr s) = s2n s"

text \<open>The binary \<open>-\<close> of the language on two values; \<open>None\<close> is \<open>NaN\<close>.\<close>

definition js_minus :: "(string \<Rightarrow> real option) \<Rightarrow> jsval \<Rightarrow> jsval \<Rightarrow> real option" where
  "js_minus s2n x y =
     (case ToNumber s2n x of
        None \<Rightarrow> None
      | Some a \<Rightarrow> (case ToNumber s2n y of None \<Rightarrow> None | Some b \<Rightarrow> Some (a - b)))"

section \<open>Errors\<close>

text \<open>
  Every \<open>throw\<close> of the source is a value: the \<open>not initialized\<close> error of \<open>getScores\<close>,
  the \<open>TypeError\<close> of \<open>reduce\<close> on an empty array, the \<open>TypeError\<close> of \<open>toFixed\<close> called
  on a value that is not a number, and whatever the tokenizer or the model throws
  (\<open>BackendError\<close>, with its message).
\<close>

datatype error =
    NotInitialized string
  | ReduceOfEmptyArray
  | ToFixedOfNonNumber
  | BackendError string

section \<open>The scoring backend\<close>

text \<open>
  The tokenizer and the network are outside the repository. A tokenizer maps the
  queries and the passages of a batch to features (rows of token ids) or throws; a
  model maps features to logits or throws, and carries its \<open>config.id2label\<close>. The
  logits tensor is its \<open>dims\<close> and the nested array \<open>tolist()\<close> returns.
\<close>

type_synonym features = "int list list"

record logits =
  dims :: "nat list"
  tolist :: "real list list"

type_synonym tokenizer = "string list \<Rightarrow> jsval list \<Rightarrow> error + features"

record model =
  id2label :: "(nat \<times> string) list"
  forward :: "features \<Rightarrow> error + logits"

text \<open>
  The static maps of \<open>ModelLoader\<close>: loaded models and tokenizers by model name, and
  the promise of an initialization in flight (a promise is named by a number).
\<close>

record cache =
  models :: "string \<rightharpoonup> model"
  tokenizers :: "string \<rightharpoonup> tokenizer"
  initializationPromises :: "string \<rightharpoonup> nat"

section \<open>Score normalization: \<open>getScores\<close>\<close>

text \<open>
  The arithmetic of \<open>#sigmoid\<close> and \<open>#softmax\<close> is that of doubles. Its operands are
  not negative: a value is a real or \<open>Infinity\<close>. What is modelled of an operation is the
  range of its result: a result of at least \<open>overflow_bound\<close> is \<open>Infinity\<close> and a result
  of at most \<open>underflow_bound\<close> is 0 (the bounds of rounding to nearest, above the largest
  double and below the smallest). Within the range the result is the exact one: its
  rounding is not modelled.
\<close>

datatype magnitude = Finite real | Infinity

definition overflow_bound :: real where
  "overflow_bound = 2 ^ 1024 - 2 ^ 970"

definition underflow_bound :: real where
  "underflow_bound = 1 / 2 ^ 1075"

definition to_double :: "real \<Rightarrow> magnitude" where
  "to_double r =
     (if overflow_bound \<le> r then Infinity
      else if r \<le> underflow_bound then Finite 0
      else Finite r)"

text \<open>\<open>Math.exp(x)\<close>\<close>

definition Math_exp :: "real \<Rightarrow> magnitude" where
  "Math_exp x = to_double (exp x)"

text \<open>\<open>a + b\<close>\<close>

definition double_plus :: "magnitude \<Rightarrow> magnitude \<Rightarrow> magnitude" where
  "double_plus a b =
     (case a of
        Infinity \<Rightarrow> Infinity
      | Finite x \<Rightarrow> (case b of Infinity \<Rightarrow> Infinity | Finite y \<Rightarrow> to_double (x + y)))"

text \<open>
  \<open>a / b\<close> where \<open>a\<close> is at most \<open>b\<close>, as it is in \<open>1 / (1 + e)\<close> and in \<open>e / sumExps\<close>
  (lemma \<open>summand_at_most_sum\<close>): the quotient is a number from 0 to 1, or it is \<open>NaN\<close>,
  for \<open>Infinity / Infinity\<close> and for \<open>0 / 0\<close>. A real over \<open>Infinity\<close> is 0.
\<close>

definition double_divide :: "magnitude \<Rightarrow> magnitude \<Rightarrow> jsval" where
  "double_divide a b =
     (case b of
        Infinity \<Rightarrow> (case a of Infinity \<Rightarrow> JNaN | Finite x \<Rightarrow> JNum 0)
      | Finite y \<Rightarrow>
          (case a of Infinity \<Rightarrow> JNaN | Finite x \<Rightarrow> if y = 0 then JNaN else JNum (x / y)))"

text \<open>\<open>1 / (1 + Math.exp(-x))\<close>\<close>

definition sigmoid :: "real \<Rightarrow> jsval" where
  "sigmoid x = double_divide (Finite 1) (double_plus (Finite 1) (Math_exp (- x)))"

text \<open>
  \<open>reduce\<close> without an initial value folds from the first element and throws a
  \<open>TypeError\<close> on an empty array. The exponentials are taken as they are, without the
  maximum of the row subtracted.
\<close>

definition softmax :: "real list \<Rightarrow> error + jsval list" where
  "softmax arr =
     (let exps = map Math_exp arr in
      case exps of
        [] \<Rightarrow> Inl ReduceOfEmptyArray
      | e0 # es \<Rightarrow>
          (let sumExps = foldl double_plus e0 es
           in Inr (map (\<lambda>e. double_divide e sumExps) exps)))"

text \<open>\<open>map\<close> with a callback that may throw: the first error ends it.\<close>

fun map_throwing :: "('a \<Rightarrow> error + 'b) \<Rightarrow> 'a list \<Rightarrow> error + 'b list" where
  "map_throwing f [] = Inr []"
| "map_throwing f (x # xs) =
     (case f x of
        Inl e \<Rightarrow> Inl e
      | Inr y \<Rightarrow> (case map_throwing f xs of Inl e \<Rightarrow> Inl e | Inr ys \<Rightarrow> Inr (y # ys)))"

text \<open>The test \<open>/relevant|positive/i\<close>: a substring match that ignores the case of ASCII letters.\<close>

definition to_lower :: "char \<Rightarrow> char" where
  "to_lower c =
     (case map_of (zip ''ABCDEFGHIJKLMNOPQRSTUVWXYZ'' ''abcdefghijklmnopqrstuvwxyz'') c of
        None \<Rightarrow> c
      | Some l \<Rightarrow> l)"

fun contains :: "string \<Rightarrow> string \<Rightarrow> bool" where
  "contains pat [] = (pat = [])"
| "contains pat (c # cs) = (prefix pat (c # cs) \<or> contains pat cs)"

definition test_relevant_positive :: "string \<Rightarrow> bool" where
  "test_relevant_positive label =
     (contains ''relevant'' (map to_lower label) \<or> contains ''positive'' (map to_lower label))"

text \<open>
  \<open>Object.keys\<close> of an object whose keys are array indices lists them in ascending
  order; \<open>id2label\<close> is given as an association list in any order (the first entry of a
  key counts).
\<close>

definition Object_keys :: "(nat \<times> string) list \<Rightarrow> nat list" where
  "Object_keys al = sort (remdups (map fst al))"

definition positiveClassIndex :: "(nat \<times> string) list \<Rightarrow> nat" where
  "positiveClassIndex al =
     (case find (\<lambda>key. case map_of al key of None \<Rightarrow> False | Some l \<Rightarrow> test_relevant_positive l)
             (Object_keys al) of
        None \<Rightarrow> 1
      | Some key \<Rightarrow> key)"

text \<open>\<open>row[i]\<close>: \<open>undefined\<close> out of range.\<close>

definition index_or_undefined :: "jsval list \<Rightarrow> nat \<Rightarrow> jsval" where
  "index_or_undefined row i = (if i < length row then row ! i else JUndefined)"

text \<open>
  \<open>([logit]) => sigmoid(logit)\<close>: the first entry of the row; on an empty row the
  logit is \<open>undefined\<close> and the result \<open>NaN\<close>.
\<close>

definition sigmoid_row :: "real list \<Rightarrow> jsval" where
  "sigmoid_row row = (case row of [] \<Rightarrow> JNaN | logit # _ \<Rightarrow> sigmoid logit)"

record scored =
  score :: jsval
  label :: string

definition to_result :: "jsval \<Rightarrow> scored" where
  "to_result s =
     \<lparr>score = s,
      label = (case s of JNum r \<Rightarrow> (if r > 0.5 then ''RELEVANT'' else ''NOT_RELEVANT'')
               | _ \<Rightarrow> ''NOT_RELEVANT'')\<rparr>"

text \<open>
  The scores of the logits: sigmoid when the tensor has a second dimension equal to 1,
  otherwise the softmax of each row, read at the positive class.
\<close>

definition normalize :: "nat \<Rightarrow> logits \<Rightarrow> error + jsval list" where
  "normalize positiveIndex lg =
     (let shape = dims lg; logitsData = tolist lg in
      if length shape > 1 \<and> shape ! 1 = 1 then Inr (map sigmoid_row logitsData)
      else
        (case map_throwing softmax logitsData of
           Inl e \<Rightarrow> Inl e
         | Inr probabilities \<Rightarrow>
             Inr (map (\<lambda>row. index_or_undefined row positiveIndex) probabilities)))"

definition getScores :: "cache \<Rightarrow> string \<Rightarrow> (string \<times> jsval) list \<Rightarrow> error + scored list" where
  "getScores c modelName queryPassagePairs =
     (case models c modelName of
        None \<Rightarrow> Inl (NotInitialized modelName)
      | Some mdl \<Rightarrow>
         (case tokenizers c modelName of
            None \<Rightarrow> Inl (NotInitialized modelName)
          | Some tok \<Rightarrow>
             if queryPassagePairs = [] then Inr []
             else
               (case tok (map fst queryPassagePairs) (map snd queryPassagePairs) of
                  Inl e \<Rightarrow> Inl e
                | Inr feats \<Rightarrow>
                   (case forward mdl feats of
                      Inl e \<Rightarrow> Inl e
                    | Inr lg \<Rightarrow>
                       (case normalize (positiveClassIndex (id2label mdl)) lg of
                          Inl e \<Rightarrow> Inl e
                        | Inr scores \<Rightarrow> Inr (map to_result scores))))))"

section \<open>Reranking\<close>

text \<open>A document is a string or an object.\<close>

datatype document = DocString string | DocObject jsobject

text \<open>\<open>typeof doc === 'string' ? doc : doc.text\<close>\<close>

definition doc_text :: "document \<Rightarrow> jsval" where
  "doc_text doc = (case doc of DocString s \<Rightarrow> JStr s | DocObject obj \<Rightarrow> get_prop obj ''text'')"

text \<open>\<open>documents[i]\<close>: \<open>undefined\<close> (\<open>None\<close>) out of range.\<close>

definition doc_at :: "document list \<Rightarrow> nat \<Rightarrow> document option" where
  "doc_at documents i = (if i < length documents then Some (documents ! i) else None)"

text \<open>
  What the spread \<open>...(typeof d === 'string' ? { text: d } : d)\<close> contributes: the
  spread of \<open>undefined\<close> contributes nothing.
\<close>

definition spread_document :: "document option \<Rightarrow> jsobject" where
  "spread_document d =
     (case d of
        None \<Rightarrow> Map.empty
      | Some (DocString s) \<Rightarrow> [''text'' \<mapsto> JStr s]
      | Some (DocObject obj) \<Rightarrow> obj)"

text \<open>
  The object literal of a result: the two computed properties first, then the spread,
  whose properties replace those of the same name.
\<close>

definition chunk_result :: "document list \<Rightarrow> nat \<Rightarrow> jsval \<Rightarrow> jsobject" where
  "chunk_result documents originalIndex s =
     [''_rerank_corpus_id'' \<mapsto> JNum (real originalIndex), ''_rerank_score'' \<mapsto> s]
       ++ spread_document (doc_at documents originalIndex)"

text \<open>\<open>documents.slice(chunkStart, chunkEnd)\<close>\<close>

definition slice :: "'a list \<Rightarrow> nat \<Rightarrow> nat \<Rightarrow> 'a list" where
  "slice xs start end = take (end - start) (drop start xs)"

text \<open>
  The batching loop of \<open>rerank\<close>, from index \<open>i\<close> with the results collected so far.
  With \<open>batchSize = 0\<close> the loop of the source never ends; the result is then \<open>None\<close>.
\<close>

partial_function (option) rerank_loop ::
  "cache \<Rightarrow> string \<Rightarrow> string \<Rightarrow> document list \<Rightarrow> nat \<Rightarrow> nat \<Rightarrow> jsobject list
     \<Rightarrow> (error + jsobject list) option" where
  "rerank_loop c modelName query documents batchSize i allResults =
     (if i < length documents then
        (let chunkStart = i;
             chunkEnd = min (i + batchSize) (length documents);
             chunk = slice documents chunkStart chunkEnd;
             queryDocPairs = map (\<lambda>doc. (query, doc_text doc)) chunk
         in case getScores c modelName queryDocPairs of
              Inl e \<Rightarrow> Some (Inl e)
            | Inr chunkScores \<Rightarrow>
                rerank_loop c modelName query documents batchSize (i + batchSize)
                  (allResults @
                     map (\<lambda>(j, result). chunk_result documents (chunkStart + j) (score result))
                       (enumerate 0 chunkScores)))
      else Some (Inr allResults))"

text \<open>
  \<open>Array.prototype.sort\<close> with a comparison function. The language fixes the result
  when the function is consistent: the sort is stable. A \<open>NaN\<close> from the function
  counts as \<open>0\<close>. The model is the stable insertion sort; where the function is not
  consistent the language leaves the order to the implementation, and the model is one
  of the orders allowed.
\<close>

definition SortCompare :: "('a \<Rightarrow> 'a \<Rightarrow> real option) \<Rightarrow> 'a \<Rightarrow> 'a \<Rightarrow> real" where
  "SortCompare comparefn x y = (case comparefn x y of None \<Rightarrow> 0 | Some v \<Rightarrow> v)"

fun insert_sorted :: "('a \<Rightarrow> 'a \<Rightarrow> real option) \<Rightarrow> 'a \<Rightarrow> 'a list \<Rightarrow> 'a list" where
  "insert_sorted comparefn x [] = [x]"
| "insert_sorted comparefn x (y # ys) =
     (if SortCompare comparefn x y \<le> 0 then x # y # ys
      else y # insert_sorted comparefn x ys)"

definition Array_sort :: "('a \<Rightarrow> 'a \<Rightarrow> real option) \<Rightarrow> 'a list \<Rightarrow> 'a list" where
  "Array_sort comparefn xs = foldr (insert_sorted comparefn) xs []"

text \<open>\<open>(a, b) => b._rerank_score - a._rerank_score\<close>\<close>

definition by_score_descending ::
  "(string \<Rightarrow> real option) \<Rightarrow> jsobject \<Rightarrow> jsobject \<Rightarrow> real option" where
  "by_score_descending s2n a b =
     js_minus s2n (get_prop b ''_rerank_score'') (get_prop a ''_rerank_score'')"

text \<open>The options of \<open>rerank\<close>, with the defaults of \<open>{ topK = 4, batchSize = 128 } = options\<close>.\<close>

record options =
  topK :: "nat option"
  batchSize :: "nat option"

definition topK_of :: "options \<Rightarrow> nat" where
  "topK_of opts = (case topK opts of None \<Rightarrow> 4 | Some k \<Rightarrow> k)"

definition batchSize_of :: "options \<Rightarrow> nat" where
  "batchSize_of opts = (case batchSize opts of None \<Rightarrow> 128 | Some b \<Rightarrow> b)"

text \<open>
  \<open>finalTopK[0]?._rerank_score.toFixed(4)\<close>, in the message that \<open>rerank\<close> hands to
  \<open>logger.debug\<close> before it returns: \<open>toFixed\<close> is a method of numbers, \<open>NaN\<close> among
  them, and the call throws a \<open>TypeError\<close> on any other value.
\<close>

definition toFixed_throws :: "jsval \<Rightarrow> bool" where
  "toFixed_throws v = (case v of JNum r \<Rightarrow> False | JNaN \<Rightarrow> False | _ \<Rightarrow> True)"

text \<open>
  \<open>rerank\<close> of a reranker for model \<open>modelName\<close>: \<open>Some (Inr results)\<close> when it
  returns, \<open>Some (Inl e)\<close> when it throws, \<open>None\<close> when it does not end. The message
  for \<open>logger.debug\<close> is built whatever the log level: nothing is read of an empty
  result, and otherwise the \<open>_rerank_score\<close> of the first result is formatted.
\<close>

definition rerank ::
  "(string \<Rightarrow> real option) \<Rightarrow> cache \<Rightarrow> string \<Rightarrow> string \<Rightarrow> document list \<Rightarrow> options
     \<Rightarrow> (error + jsobject list) option" where
  "rerank s2n c modelName query documents opts =
     (if documents = [] then Some (Inr [])
      else
        (case rerank_loop c modelName query documents (batchSize_of opts) 0 [] of
           None \<Rightarrow> None
         | Some (Inl e) \<Rightarrow> Some (Inl e)
         | Some (Inr allResults) \<Rightarrow>
             (let reranked = Array_sort (by_score_descending s2n) allResults;
                  finalTopK = take (topK_of opts) reranked
              in case finalTopK of
                   [] \<Rightarrow> Some (Inr finalTopK)
                 | first # _ \<Rightarrow>
                     if toFixed_throws (get_prop first ''_rerank_score'')
                     then Some (Inl ToFixedOfNonNumber)
                     else Some (Inr finalTopK))))"

section \<open>Evaluation metrics\<close>

text \<open>A ranked passage carries its relevance flag.\<close>

record passage =
  isRelevant :: bool

definition calculateMRR :: "passage list \<Rightarrow> nat \<Rightarrow> real" where
  "calculateMRR rankedPassages k =
     (let relevantRanks =
            map (\<lambda>i. i + 1)
              (filter (\<lambda>i. isRelevant (rankedPassages ! i)) [0 ..< min (length rankedPassages) k])
      in case relevantRanks of [] \<Rightarrow> 0 | r # _ \<Rightarrow> 1 / real r)"

definition calculateDCG :: "passage list \<Rightarrow> nat \<Rightarrow> real" where
  "calculateDCG rankedPassages k =
     foldl (\<lambda>dcg i.
              (let relevance = (if isRelevant (rankedPassages ! i) then 1 else 0) in
               if i = 0 then dcg + relevance else dcg + relevance / log 2 (real (i + 1))))
       0 [0 ..< min (length rankedPassages) k]"

definition calculateIDCG :: "passage list \<Rightarrow> nat \<Rightarrow> real" where
  "calculateIDCG rankedPassages k =
     (let relevantCount = length (filter isRelevant rankedPassages);
          maxRelevant = min relevantCount k
      in foldl (\<lambda>idcg i. if i = 0 then idcg + 1 else idcg + 1 / log 2 (real (i + 1)))
           0 [0 ..< maxRelevant])"

definition calculateNDCG :: "passage list \<Rightarrow> nat \<Rightarrow> real" where
  "calculateNDCG rankedPassages k =
     (let dcg = calculateDCG rankedPassages k; idcg = calculateIDCG rankedPassages k
      in if idcg > 0 then dcg / idcg else 0)"

definition calculatePrecisionAtK :: "passage list \<Rightarrow> nat \<Rightarrow> real" where
  "calculatePrecisionAtK rankedPassages k =
     (if k = 0 \<or> length rankedPassages = 0 then 0
      else
        (let topK = slice rankedPassages 0 (min k (length rankedPassages));
             relevantInTopK = length (filter isRelevant topK)
         in real relevantInTopK / real (min k (length rankedPassages))))"

definition calculateRecallAtK :: "passage list \<Rightarrow> nat \<Rightarrow> real" where
  "calculateRecallAtK rankedPassages k =
     (let totalRelevant = length (filter isRelevant rankedPassages) in
      if totalRelevant = 0 then 0
      else
        (let topK = slice rankedPassages 0 (min k (length rankedPassages));
             relevantInTopK = length (filter isRelevant topK)
         in real relevantInTopK / real totalRelevant))"

text \<open>
  The property names of a metrics object: \<open>Metric name k\<close> is the template string
  \<open>`${name}@${k}`\<close>, \<open>Prop name\<close> a plain name. An object whose properties are listed
  (\<open>Object.entries\<close>) is an association list in insertion order; an assignment to a
  property that exists keeps its place.
\<close>

datatype key = Metric string nat | Prop string

definition calculateAllMetrics :: "passage list \<Rightarrow> nat list \<Rightarrow> (key \<times> real) list" where
  "calculateAllMetrics rankedPassages kValues =
     foldl (\<lambda>metrics k.
              AList.update (Metric ''Recall'' k) (calculateRecallAtK rankedPassages k)
                (AList.update (Metric ''Precision'' k) (calculatePrecisionAtK rankedPassages k)
                   (AList.update (Metric ''NDCG'' k) (calculateNDCG rankedPassages k)
                      (AList.update (Metric ''MRR'' k) (calculateMRR rankedPassages k) metrics))))
       [] kValues"

text \<open>JavaScript truthiness.\<close>

fun ToBoolean :: "jsval \<Rightarrow> bool" where
  "ToBoolean JUndefined = False"
| "ToBoolean JNull = False"
| "ToBoolean (JBool b) = b"
| "ToBoolean (JNum r) = (r \<noteq> 0)"
| "ToBoolean JNaN = False"
| "ToBoolean (JStr s) = (s \<noteq> [])"

record queryResult =
  error :: jsval
  rankedPassages :: "passage list"

text \<open>\<open>metricSums[metricName] += value\<close>: on a missing property the sum is \<open>NaN\<close>.\<close>

definition add_to :: "key \<Rightarrow> real \<Rightarrow> (key \<times> jsval) list \<Rightarrow> (key \<times> jsval) list" where
  "add_to metricName v metricSums =
     AList.update metricName
       (case map_of metricSums metricName of Some (JNum s) \<Rightarrow> JNum (s + v) | _ \<Rightarrow> JNaN)
       metricSums"

text \<open>\<open>sum / validResults.length\<close>, the length being positive.\<close>

definition divide_by :: "jsval \<Rightarrow> nat \<Rightarrow> jsval" where
  "divide_by s n = (case s of JNum r \<Rightarrow> JNum (r / real n) | _ \<Rightarrow> JNaN)"

definition calculateAverageMetrics :: "queryResult list \<Rightarrow> nat list \<Rightarrow> (key \<times> jsval) list" where
  "calculateAverageMetrics queryResults kValues =
     (if length queryResults = 0 then []
      else
        (let validResults = filter (\<lambda>result. \<not> ToBoolean (error result)) queryResults in
         if length validResults = 0
         then [(Prop ''error'', JStr ''No valid results to calculate metrics'')]
         else
           (let metricSums0 =
                  foldl (\<lambda>acc k.
                           AList.update (Metric ''Recall'' k) (JNum 0)
                             (AList.update (Metric ''Precision'' k) (JNum 0)
                                (AList.update (Metric ''NDCG'' k) (JNum 0)
                                   (AList.update (Metric ''MRR'' k) (JNum 0) acc))))
                    [] kValues;
                metricSums =
                  foldl (\<lambda>acc result.
                           foldl (\<lambda>acc' (metricName, v). add_to metricName v acc') acc
                             (calculateAllMetrics (rankedPassages result) kValues))
                    metricSums0 validResults;
                averageMetrics =
                  foldl (\<lambda>avg (metricName, s).
                           AList.update metricName (divide_by s (length validResults)) avg)
                    [] metricSums
            in AList.update (Prop ''errorQueries'')
                 (JNum (real (length queryResults - length validResults)))
                 (AList.update (Prop ''validQueries'') (JNum (real (length validResults)))
                    (AList.update (Prop ''totalQueries'') (JNum (real (length queryResults)))
                       averageMetrics)))))"

section \<open>Initialization of a model\<close>

text \<open>
  \<open>initialize\<close> is an \<open>async\<close> method: it runs without interruption up to an \<open>await\<close>,
  and a suspended body goes on when what it awaits is settled. The model is a state
  machine whose steps are these uninterrupted stretches. The state holds the static
  maps, the state of every promise made for an initialization, the suspended body of
  each (what it is loading, for which model name), and a log of the calls to
  \<open>from_pretrained\<close>.
\<close>

datatype settlement = Pending | Fulfilled | Rejected error

datatype task = LoadingModel string | LoadingTokenizer string model

record runtime =
  statics :: cache
  promise_state :: "nat \<rightharpoonup> settlement"
  tasks :: "nat \<rightharpoonup> task"
  next_promise :: nat
  model_loads :: "string list"
  tokenizer_loads :: "string list"

text \<open>What a caller of \<open>initialize\<close> has after the call: its result, or a promise to await.\<close>

datatype status = Returned | Awaiting nat

text \<open>
  A call of \<open>initialize\<close> up to its first \<open>await\<close>. With the model loaded it returns. With
  an initialization in flight it awaits that promise. Otherwise the inner \<open>async\<close>
  function starts: it calls \<open>from_pretrained\<close> for the model and is suspended there; its
  promise is stored under the model name and awaited.
\<close>

definition initialize_call :: "string \<Rightarrow> runtime \<Rightarrow> status \<times> runtime" where
  "initialize_call modelName rt =
     (if models (statics rt) modelName \<noteq> None then (Returned, rt)
      else
        (case initializationPromises (statics rt) modelName of
           Some promise \<Rightarrow> (Awaiting promise, rt)
         | None \<Rightarrow>
             (let promise = next_promise rt in
              (Awaiting promise,
               rt\<lparr>statics := (statics rt)
                       \<lparr>initializationPromises :=
                          (initializationPromises (statics rt))(modelName \<mapsto> promise)\<rparr>,
                  promise_state := (promise_state rt)(promise \<mapsto> Pending),
                  tasks := (tasks rt)(promise \<mapsto> LoadingModel modelName),
                  next_promise := Suc promise,
                  model_loads := model_loads rt @ [modelName]\<rparr>))))"

text \<open>
  The end of the inner function: \<open>finally\<close> deletes the promise stored under the model
  name, and the promise is settled.
\<close>

definition settle :: "nat \<Rightarrow> string \<Rightarrow> settlement \<Rightarrow> runtime \<Rightarrow> runtime" where
  "settle promise modelName outcome rt =
     rt\<lparr>statics := (statics rt)
             \<lparr>initializationPromises := (initializationPromises (statics rt))(modelName := None)\<rparr>,
        promise_state := (promise_state rt)(promise \<mapsto> outcome),
        tasks := (tasks rt)(promise := None)\<rparr>"

text \<open>
  The load of the model ends: on an error the inner function rethrows it; otherwise it
  calls \<open>from_pretrained\<close> for the tokenizer and is suspended again.
\<close>

definition model_loaded :: "nat \<Rightarrow> error + model \<Rightarrow> runtime \<Rightarrow> runtime" where
  "model_loaded promise result rt =
     (case tasks rt promise of
        Some (LoadingModel modelName) \<Rightarrow>
          (case result of
             Inl e \<Rightarrow> settle promise modelName (Rejected e) rt
           | Inr mdl \<Rightarrow>
               rt\<lparr>tasks := (tasks rt)(promise \<mapsto> LoadingTokenizer modelName mdl),
                  tokenizer_loads := tokenizer_loads rt @ [modelName]\<rparr>)
      | _ \<Rightarrow> rt)"

text \<open>
  The load of the tokenizer ends: on an error the inner function rethrows it; otherwise
  it stores the model and the tokenizer and ends.
\<close>

definition tokenizer_loaded :: "nat \<Rightarrow> error + tokenizer \<Rightarrow> runtime \<Rightarrow> runtime" where
  "tokenizer_loaded promise result rt =
     (case tasks rt promise of
        Some (LoadingTokenizer modelName mdl) \<Rightarrow>
          (case result of
             Inl e \<Rightarrow> settle promise modelName (Rejected e) rt
           | Inr tok \<Rightarrow>
               settle promise modelName Fulfilled
                 (rt\<lparr>statics := (statics rt)
                         \<lparr>models := (models (statics rt))(modelName \<mapsto> mdl),
                          tokenizers := (tokenizers (statics rt))(modelName \<mapsto> tok)\<rparr>\<rparr>))
      | _ \<Rightarrow> rt)"

text \<open>What happens, in the order it happens: calls of \<open>initialize\<close> and ends of loads.\<close>

datatype event =
    Initialize string
  | ModelLoaded nat "error + model"
  | TokenizerLoaded nat "error + tokenizer"

fun step :: "runtime \<Rightarrow> event \<Rightarrow> runtime" where
  "step rt (Initialize modelName) = snd (initialize_call modelName rt)"
| "step rt (ModelLoaded promise result) = model_loaded promise result rt"
| "step rt (TokenizerLoaded promise result) = tokenizer_loaded promise result rt"

definition run :: "runtime \<Rightarrow> event list \<Rightarrow> runtime" where
  "run rt events = foldl step rt events"

text \<open>The state at the start of the process: nothing loaded, nothing in flight.\<close>

definition start :: runtime where
  "start =
     \<lparr>statics = \<lparr>models = Map.empty, tokenizers = Map.empty, initializationPromises = Map.empty\<rparr>,
      promise_state = Map.empty, tasks = Map.empty, next_promise = 0,
      model_loads = [], tokenizer_loads = []\<rparr>"

section \<open>Definitions for the statements\<close>

subsection \<open>DCG and IDCG as the specification words them\<close>

text \<open>
  DCG at k: the relevance at rank 1, plus the relevance over \<open>log\<^sub>2\<close> of the rank at every
  rank from 2 to the smaller of k and the length. IDCG at k: the same sum with
  relevance 1 at each of the first \<open>min totalRelevant k\<close> ranks.
\<close>

definition spec_DCG :: "passage list \<Rightarrow> nat \<Rightarrow> real" where
  "spec_DCG ranked k =
     (\<Sum>r = 1 .. min k (length ranked).
        (if isRelevant (ranked ! (r - 1)) then 1 else 0) / (if r = 1 then 1 else log 2 (real r)))"

definition spec_IDCG :: "passage list \<Rightarrow> nat \<Rightarrow> real" where
  "spec_IDCG ranked k =
     (\<Sum>r = 1 .. min (length (filter isRelevant ranked)) k.
        1 / (if r = 1 then 1 else log 2 (real r)))"


subsection \<open>Means of metrics\<close>

definition metric_names :: "string set" where
  "metric_names = {''MRR'', ''NDCG'', ''Precision'', ''Recall''}"

definition metric_value :: "string \<Rightarrow> passage list \<Rightarrow> nat \<Rightarrow> real" where
  "metric_value m =
     (if m = ''MRR'' then calculateMRR
      else if m = ''NDCG'' then calculateNDCG
      else if m = ''Precision'' then calculatePrecisionAtK
      else calculateRecallAtK)"

definition valid_results :: "queryResult list \<Rightarrow> queryResult list" where
  "valid_results queryResults = filter (\<lambda>result. \<not> ToBoolean (error result)) queryResults"

definition no_valid_results :: "(key \<times> jsval) list" where
  "no_valid_results = [(Prop ''error'', JStr ''No valid results to calculate metrics'')]"

definition js_add :: "jsval option \<Rightarrow> real \<Rightarrow> jsval" where
  "js_add old v = (case old of Some (JNum s) \<Rightarrow> JNum (s + v) | _ \<Rightarrow> JNaN)"

definition rel :: passage where "rel = \<lparr>isRelevant = True\<rparr>"
definition irr :: passage where "irr = \<lparr>isRelevant = False\<rparr>"

definition sample_results :: "queryResult list" where
  "sample_results =
     [\<lparr>error = JUndefined, rankedPassages = [rel, irr]\<rparr>,
      \<lparr>error = JStr ''timeout'', rankedPassages = []\<rparr>,
      \<lparr>error = JUndefined, rankedPassages = [irr, rel]\<rparr>]"


subsection \<open>Softmax as the specification words it\<close>

definition spec_softmax :: "real list \<Rightarrow> real list" where
  "spec_softmax row = map (\<lambda>x. exp x / (\<Sum>y \<leftarrow> row. exp y)) row"

text \<open>A row whose exponentials, and their sum, are within the range of doubles.\<close>

definition in_range :: "real list \<Rightarrow> bool" where
  "in_range row =
     ((\<forall>x \<in> set row. underflow_bound < exp x) \<and> (\<Sum>x \<leftarrow> row. exp x) < overflow_bound)"

text \<open>The probabilities of a row, and the score that \<open>getScores\<close> gives a row of \<open>cols\<close> logits.\<close>

definition probabilities_of :: "real list \<Rightarrow> jsval list" where
  "probabilities_of row = (case softmax row of Inl e \<Rightarrow> [] | Inr probabilities \<Rightarrow> probabilities)"

definition row_score :: "nat \<Rightarrow> nat \<Rightarrow> real list \<Rightarrow> jsval" where
  "row_score cols positiveIndex row =
     (if cols = 1 then sigmoid_row row
      else index_or_undefined (probabilities_of row) positiveIndex)"

text \<open>
  Sample backends: a tokenizer, a single-logit model, a model with the given labels that
  gives every pair the given row, a loaded cache.
\<close>

definition pad_tokenizer :: tokenizer where
  "pad_tokenizer queries passages = Inr (map (\<lambda>_. []) queries)"

definition single_logit_model :: model where
  "single_logit_model =
     \<lparr>id2label = [(0, ''LABEL_0'')],
      forward = (\<lambda>feats. Inr \<lparr>dims = [length feats, 1], tolist = map (\<lambda>_. [0]) feats\<rparr>)\<rparr>"

definition class_model :: "(nat \<times> string) list \<Rightarrow> real list \<Rightarrow> model" where
  "class_model labels row =
     \<lparr>id2label = labels,
      forward = (\<lambda>feats. Inr \<lparr>dims = [length feats, length row],
                               tolist = map (\<lambda>_. row) feats\<rparr>)\<rparr>"

definition loaded :: "string \<Rightarrow> model \<Rightarrow> tokenizer \<Rightarrow> cache" where
  "loaded modelName mdl tok =
     \<lparr>models = [modelName \<mapsto> mdl], tokenizers = [modelName \<mapsto> tok],
      initializationPromises = Map.empty\<rparr>"


subsection \<open>Results of rerank\<close>

definition built :: "document list \<Rightarrow> nat \<Rightarrow> jsval list \<Rightarrow> jsobject list" where
  "built documents i ss = map (\<lambda>(j, s). chunk_result documents j s) (enumerate i ss)"

definition pairs_of :: "string \<Rightarrow> document list \<Rightarrow> (string \<times> jsval) list" where
  "pairs_of query documents = map (\<lambda>doc. (query, doc_text doc)) documents"

definition accepts :: "model \<Rightarrow> tokenizer \<Rightarrow> string list \<Rightarrow> jsval list \<Rightarrow> bool" where
  "accepts mdl tok queries passages =
     (\<exists>feats lg cols.
        tok queries passages = Inr feats \<and> forward mdl feats = Inr lg
        \<and> dims lg = [length queries, cols] \<and> length (tolist lg) = length queries
        \<and> (\<forall>row \<in> set (tolist lg). length row = cols)
        \<and> (cols = 1 \<or> (1 < cols \<and> positiveClassIndex (id2label mdl) < cols)))"

text \<open>
  The backend returns, for every batch, one row of logits of the declared shape for each
  pair, and where the softmax applies the rows are within the range of doubles.
\<close>

definition backend_contract :: "model \<Rightarrow> tokenizer \<Rightarrow> bool" where
  "backend_contract mdl tok =
     (\<forall>queries passages. queries \<noteq> [] \<and> length passages = length queries
        \<longrightarrow> accepts mdl tok queries passages
            \<and> (\<forall>feats lg. tok queries passages = Inr feats \<and> forward mdl feats = Inr lg
                   \<and> dims lg \<noteq> [length queries, 1]
                 \<longrightarrow> (\<forall>row \<in> set (tolist lg). in_range row)))"


definition exposed_score :: "jsobject \<Rightarrow> jsval" where
  "exposed_score item = get_prop item ''_rerank_score''"


definition non_increasing :: "jsval list \<Rightarrow> bool" where
  "non_increasing vs =
     sorted_wrt (\<lambda>x y. case x of JNum a \<Rightarrow> (case y of JNum b \<Rightarrow> b \<le> a | _ \<Rightarrow> False) | _ \<Rightarrow> False) vs"


definition exposed_scores :: "(error + jsobject list) option \<Rightarrow> (error + jsval list) option" where
  "exposed_scores res = map_option (map_sum id (map exposed_score)) res"

subsection \<open>Corpus ids\<close>

definition exposed_corpus_id :: "jsobject \<Rightarrow> jsval" where
  "exposed_corpus_id item = get_prop item ''_rerank_corpus_id''"

definition exposed_corpus_ids :: "(error + jsobject list) option \<Rightarrow> (error + jsval list) option" where
  "exposed_corpus_ids res = map_option (map_sum id (map exposed_corpus_id)) res"

subsection \<open>Sample documents\<close>

definition three_documents :: "document list" where
  "three_documents =
     [DocString ''a'', DocObject [''text'' \<mapsto> JStr ''b'', ''id'' \<mapsto> JStr ''doc2''], DocString ''c'']"

definition sample_cache :: cache where
  "sample_cache = loaded ''m'' single_logit_model pad_tokenizer"

subsection \<open>Documents without text\<close>

definition is_string :: "jsval \<Rightarrow> bool" where
  "is_string v = (case v of JStr s \<Rightarrow> True | _ \<Rightarrow> False)"

definition rejects_non_strings :: "tokenizer \<Rightarrow> error \<Rightarrow> bool" where
  "rejects_non_strings tok e =
     (\<forall>queries passages. (\<exists>p \<in> set passages. \<not> is_string p) \<longrightarrow> tok queries passages = Inl e)"

definition accepts_strings :: "model \<Rightarrow> tokenizer \<Rightarrow> bool" where
  "accepts_strings mdl tok =
     (\<forall>queries passages.
        queries \<noteq> [] \<and> length passages = length queries \<and> (\<forall>p \<in> set passages. is_string p)
        \<longrightarrow> accepts mdl tok queries passages)"

definition strict_tokenizer :: tokenizer where
  "strict_tokenizer queries passages =
     (if \<forall>p \<in> set passages. is_string p then Inr (map (\<lambda>_. []) queries)
      else Inl (BackendError ''text must be a string''))"

subsection \<open>A backend that scores each pair by itself\<close>

definition scores_each_pair ::
  "model \<Rightarrow> tokenizer \<Rightarrow> (string \<times> jsval \<Rightarrow> real list) \<Rightarrow> nat \<Rightarrow> bool" where
  "scores_each_pair mdl tok h cols =
     (\<forall>queries passages. queries \<noteq> [] \<and> length passages = length queries \<longrightarrow>
        (\<exists>feats. tok queries passages = Inr feats
           \<and> forward mdl feats
               = Inr \<lparr>dims = [length queries, cols], tolist = map h (zip queries passages)\<rparr>))"

subsection \<open>A backend that depends on the padding of the batch\<close>

text \<open>
  A tokenizer that gives a string one token 1 for each of its characters and pads the
  rows of a batch with the token 0 to the length of the longest (\<open>padding: true\<close>), and
  a single-logit model whose logit for a row is the number of its padding tokens.
\<close>

definition token_count :: "jsval \<Rightarrow> nat" where
  "token_count p = (case p of JStr s \<Rightarrow> length s | _ \<Rightarrow> 0)"

definition padding_tokenizer :: tokenizer where
  "padding_tokenizer queries passages =
     (let longest = foldr max (map token_count passages) 0
      in Inr (map (\<lambda>p. replicate (token_count p) 1 @ replicate (longest - token_count p) 0)
                passages))"

definition padding_model :: model where
  "padding_model =
     \<lparr>id2label = [(0, ''LABEL_0'')],
      forward = (\<lambda>feats. Inr \<lparr>dims = [length feats, 1],
                               tolist = map (\<lambda>row. [real (count_list row 0)]) feats\<rparr>)\<rparr>"

subsection \<open>Initialization in flight\<close>

fun task_key :: "task \<Rightarrow> string" where
  "task_key (LoadingModel modelName) = modelName"
| "task_key (LoadingTokenizer modelName mdl) = modelName"

text \<open>
  States as they arise from \<open>start\<close>: a suspended body belongs to a promise that was
  made, and its promise is the one stored under its model name.
\<close>

definition consistent :: "runtime \<Rightarrow> bool" where
  "consistent rt =
     (\<forall>p t. tasks rt p = Some t \<longrightarrow>
        p < next_promise rt \<and> initializationPromises (statics rt) (task_key t) = Some p)"

text \<open>An event that ends the initialization behind promise \<open>p\<close>.\<close>

fun completes :: "nat \<Rightarrow> event \<Rightarrow> bool" where
  "completes p (Initialize modelName) = False"
| "completes p (ModelLoaded q result) = (q = p \<and> isl result)"
| "completes p (TokenizerLoaded q result) = (q = p)"

text \<open>The initialization of \<open>k\<close> behind promise \<open>p\<close> is in flight.\<close>

definition in_flight :: "string \<Rightarrow> nat \<Rightarrow> runtime \<Rightarrow> bool" where
  "in_flight k p rt =
     (models (statics rt) k = None \<and> initializationPromises (statics rt) k = Some p
      \<and> promise_state rt p = Some Pending
      \<and> (tasks rt p = Some (LoadingModel k) \<or> (\<exists>mdl. tasks rt p = Some (LoadingTokenizer k mdl))))"

text \<open>The state after a first call of \<open>initialize\<close> for \<open>k\<close> and the events that follow it.\<close>

definition after_first :: "string \<Rightarrow> runtime \<Rightarrow> event list \<Rightarrow> runtime" where
  "after_first k rt events = run (snd (initialize_call k rt)) events"

text \<open>The tokenizer has been asked for, for \<open>k\<close> behind promise \<open>p\<close>.\<close>

definition tokenizer_phase :: "string \<Rightarrow> nat \<Rightarrow> runtime \<Rightarrow> bool" where
  "tokenizer_phase k p rt = (\<exists>mdl. tasks rt p = Some (LoadingTokenizer k mdl))"

definition tokenizer_count :: "string \<Rightarrow> nat \<Rightarrow> runtime \<Rightarrow> nat" where
  "tokenizer_count k p rt =
     count_list (tokenizer_loads rt) k - (if tokenizer_phase k p rt then 1 else 0)"

text \<open>
  What every caller that awaits promise \<open>p\<close> for \<open>k\<close> finds when it goes on: the promise
  rejected with \<open>e\<close> and no model stored, or the promise fulfilled and the one entry
  stored.
\<close>

definition failed_for_all :: "string \<Rightarrow> nat \<Rightarrow> error \<Rightarrow> runtime \<Rightarrow> bool" where
  "failed_for_all k p e rt =
     (promise_state rt p = Some (Rejected e) \<and> models (statics rt) k = None
      \<and> initializationPromises (statics rt) k = None)"

definition loaded_for_all :: "string \<Rightarrow> nat \<Rightarrow> model \<Rightarrow> tokenizer \<Rightarrow> runtime \<Rightarrow> bool" where
  "loaded_for_all k p mdl tok rt =
     (promise_state rt p = Some Fulfilled \<and> models (statics rt) k = Some mdl
      \<and> tokenizers (statics rt) k = Some tok \<and> initializationPromises (statics rt) k = None
      \<and> initialize_call k rt = (Returned, rt))"

definition sample_events :: "event list" where
  "sample_events =
     [Initialize ''m'', Initialize ''other'', ModelLoaded 0 (Inr single_logit_model),
      Initialize ''m'', ModelLoaded 1 (Inl (BackendError ''not found''))]"

section \<open>NDCG\<close>

lemma foldl_add_upt:
  "foldl (\<lambda>acc i. acc + g i) a [0 ..< n] = a + (\<Sum>i < n. (g i :: real))"
  by (induction n) simp_all

lemma sum_shift_rank: "(\<Sum>i < n. (g (Suc i) :: real)) = (\<Sum>r = 1 .. n. g r)"
proof -
  have "(\<Sum>r = 1 .. n. g r) = (\<Sum>r = Suc 0 ..< Suc n. g r)"
    by (simp add: atLeastLessThanSuc_atLeastAtMost)
  also have "\<dots> = (\<Sum>i = 0 ..< n. g (Suc i))"
    by (rule sum.shift_bounds_Suc_ivl)
  finally show ?thesis by (simp add: atLeast0LessThan)
qed

lemma calculateDCG_sum: "calculateDCG ranked k = spec_DCG ranked k"
proof -
  let ?g = "\<lambda>r. (if isRelevant (ranked ! (r - 1)) then 1 else 0) / (if r = 1 then 1 else log 2 (real r))"
  have f: "(\<lambda>dcg i. (let relevance = (if isRelevant (ranked ! i) then 1 else 0) in
               if i = 0 then dcg + relevance else dcg + relevance / log 2 (real (i + 1))))
        = (\<lambda>dcg i. dcg + ?g (Suc i))"
    by (intro ext) (simp add: Let_def)
  have "calculateDCG ranked k = (\<Sum>i < min (length ranked) k. ?g (Suc i))"
    unfolding calculateDCG_def f by (simp add: foldl_add_upt)
  also have "\<dots> = (\<Sum>r = 1 .. min (length ranked) k. ?g r)"
    by (rule sum_shift_rank)
  finally show ?thesis by (simp add: spec_DCG_def min.commute)
qed

lemma calculateIDCG_sum: "calculateIDCG ranked k = spec_IDCG ranked k"
proof -
  let ?g = "\<lambda>r. 1 / (if r = 1 then 1 else log 2 (real r))"
  have f: "(\<lambda>idcg i. if i = 0 then idcg + 1 else idcg + 1 / log 2 (real (i + 1)))
        = (\<lambda>idcg i. idcg + ?g (Suc i))"
    by (intro ext) simp
  have "calculateIDCG ranked k = (\<Sum>i < min (length (filter isRelevant ranked)) k. ?g (Suc i))"
    unfolding calculateIDCG_def Let_def f by (simp add: foldl_add_upt)
  also have "\<dots> = (\<Sum>r = 1 .. min (length (filter isRelevant ranked)) k. ?g r)"
    by (rule sum_shift_rank)
  finally show ?thesis by (simp add: spec_IDCG_def)
qed

lemma spec_IDCG_nonneg: "0 \<le> spec_IDCG ranked k"
  unfolding spec_IDCG_def by (rule sum_nonneg) auto

lemma inv_log2_3: "200 / 317 < 1 / log 2 (3::real) \<and> 1 / log 2 (3::real) < 53 / 84"
proof -
  have a: "log 2 (3::real) < 317 / 200"
  proof -
    have "log 2 ((3::real) ^ 200) < log 2 (2 ^ 317)"
      by (subst log_less_cancel_iff) simp_all
    moreover have "log 2 ((3::real) ^ 200) = 200 * log 2 3" by (subst log_nat_power) simp_all
    moreover have "log 2 ((2::real) ^ 317) = 317" by (subst log_nat_power) simp_all
    ultimately have "200 * log 2 (3::real) < 317" by (simp only:)
    then show ?thesis by linarith
  qed
  have b: "84 / 53 < log 2 (3::real)"
  proof -
    have "log 2 ((2::real) ^ 84) < log 2 (3 ^ 53)"
      by (subst log_less_cancel_iff) simp_all
    moreover have "log 2 ((3::real) ^ 53) = 53 * log 2 3" by (subst log_nat_power) simp_all
    moreover have "log 2 ((2::real) ^ 84) = 84" by (subst log_nat_power) simp_all
    ultimately have "84 < 53 * log 2 (3::real)" by (simp only:)
    then show ?thesis by linarith
  qed
  have p: "0 < log 2 (3::real)" by simp
  show ?thesis using a b p by (simp add: field_simps)
qed

lemma NDCG_example:
  "calculateNDCG [\<lparr>isRelevant = True\<rparr>, \<lparr>isRelevant = False\<rparr>, \<lparr>isRelevant = True\<rparr>, \<lparr>isRelevant = False\<rparr>] 3
     = (1 + 1 / log 2 3) / 2"
  by (simp add: calculateNDCG_def calculateDCG_def calculateIDCG_def upt_rec numeral_eq_Suc)


text \<open>
  C7. \<open>calculateNDCG\<close> is DCG at k over IDCG at k, and 0 when IDCG at k is 0, with DCG and
  IDCG as the specification words them; for the ranking relevant, irrelevant, relevant,
  irrelevant and k = 3 the value rounds to 0.8155.
\<close>

theorem calculateNDCG_spec:
  "calculateNDCG ranked k =
     (if spec_IDCG ranked k = 0 then 0 else spec_DCG ranked k / spec_IDCG ranked k)
   \<and> 0.81545 \<le> calculateNDCG [\<lparr>isRelevant = True\<rparr>, \<lparr>isRelevant = False\<rparr>,
                               \<lparr>isRelevant = True\<rparr>, \<lparr>isRelevant = False\<rparr>] 3
   \<and> calculateNDCG [\<lparr>isRelevant = True\<rparr>, \<lparr>isRelevant = False\<rparr>,
                    \<lparr>isRelevant = True\<rparr>, \<lparr>isRelevant = False\<rparr>] 3 < 0.81555"
proof -
  have "calculateNDCG ranked k =
     (if spec_IDCG ranked k = 0 then 0 else spec_DCG ranked k / spec_IDCG ranked k)"
    using spec_IDCG_nonneg [of ranked k]
    by (simp add: calculateNDCG_def calculateDCG_sum calculateIDCG_sum)
  moreover have "0.81545 \<le> (1 + 1 / log 2 (3::real)) / 2" "(1 + 1 / log 2 (3::real)) / 2 < 0.81555"
    using inv_log2_3 by simp_all
  ultimately show ?thesis unfolding NDCG_example by simp
qed

section \<open>Average metrics\<close>

lemma map_of_foldl_update4:
  "map_of (foldl (\<lambda>acc k.
              AList.update (Metric ''Recall'' k) (h ''Recall'' k)
                (AList.update (Metric ''Precision'' k) (h ''Precision'' k)
                   (AList.update (Metric ''NDCG'' k) (h ''NDCG'' k)
                      (AList.update (Metric ''MRR'' k) (h ''MRR'' k) acc)))) acc0 ks) key
   = (case key of
        Metric m k \<Rightarrow> if k \<in> set ks \<and> m \<in> metric_names then Some (h m k) else map_of acc0 key
      | Prop p \<Rightarrow> map_of acc0 key)"
proof (induction ks arbitrary: acc0)
  case Nil
  then show ?case by (simp split: key.splits)
next
  case (Cons k ks)
  show ?case
    unfolding foldl_Cons Cons.IH
    by (auto simp: update_conv' metric_names_def split: key.splits)
qed

lemma distinct_foldl_update4:
  "distinct (map fst acc0) \<Longrightarrow>
   distinct (map fst (foldl (\<lambda>acc k.
              AList.update (Metric ''Recall'' k) (d k)
                (AList.update (Metric ''Precision'' k) (c k)
                   (AList.update (Metric ''NDCG'' k) (b k)
                      (AList.update (Metric ''MRR'' k) (a k) acc)))) acc0 ks))"
  by (induction ks arbitrary: acc0) (simp_all add: distinct_update)

lemma map_of_calculateAllMetrics:
  "map_of (calculateAllMetrics ranked kValues) key
   = (case key of
        Metric m k \<Rightarrow> if k \<in> set kValues \<and> m \<in> metric_names then Some (metric_value m ranked k) else None
      | Prop p \<Rightarrow> None)"
proof -
  have "calculateAllMetrics ranked kValues =
     foldl (\<lambda>acc k.
              AList.update (Metric ''Recall'' k) (metric_value ''Recall'' ranked k)
                (AList.update (Metric ''Precision'' k) (metric_value ''Precision'' ranked k)
                   (AList.update (Metric ''NDCG'' k) (metric_value ''NDCG'' ranked k)
                      (AList.update (Metric ''MRR'' k) (metric_value ''MRR'' ranked k) acc)))) [] kValues"
    by (simp add: calculateAllMetrics_def metric_value_def)
  then show ?thesis
    using map_of_foldl_update4 [of "\<lambda>m k. metric_value m ranked k" "[]" kValues key]
    by (simp split: key.splits)
qed

lemma distinct_calculateAllMetrics: "distinct (map fst (calculateAllMetrics ranked kValues))"
  unfolding calculateAllMetrics_def by (rule distinct_foldl_update4) simp

lemma map_of_add_to: "map_of (add_to n v acc) = (map_of acc)(n \<mapsto> js_add (map_of acc n) v)"
  by (simp add: add_to_def js_add_def update_conv')

lemma map_of_foldl_add_to:
  "distinct (map fst entries) \<Longrightarrow>
   map_of (foldl (\<lambda>acc' (metricName, v). add_to metricName v acc') acc entries) key
   = (case map_of entries key of
        None \<Rightarrow> map_of acc key
      | Some v \<Rightarrow> Some (js_add (map_of acc key) v))"
proof (induction entries arbitrary: acc)
  case Nil
  then show ?case by simp
next
  case (Cons e entries)
  obtain n v where e: "e = (n, v)" by (cases e)
  from Cons.prems have d: "distinct (map fst entries)" and n: "n \<notin> fst ` set entries"
    by (simp_all add: e)
  from n have none: "map_of entries n = None" by (simp add: map_of_eq_None_iff)
  show ?case
    unfolding e foldl_Cons prod.case Cons.IH [OF d]
    by (auto simp: map_of_add_to none split: option.splits)
qed

lemma sums_invariant:
  assumes "k \<in> set kValues" "m \<in> metric_names"
    and "map_of acc (Metric m k) = Some (JNum s)"
  shows "map_of (foldl (\<lambda>acc result.
                    foldl (\<lambda>acc' (metricName, v). add_to metricName v acc') acc
                      (calculateAllMetrics (rankedPassages result) kValues)) acc rs) (Metric m k)
         = Some (JNum (s + sum_list (map (\<lambda>r. metric_value m (rankedPassages r) k) rs)))"
  using assms(3)
proof (induction rs arbitrary: acc s)
  case Nil
  then show ?case by simp
next
  case (Cons r rs)
  have step: "map_of (foldl (\<lambda>acc' (metricName, v). add_to metricName v acc') acc
                      (calculateAllMetrics (rankedPassages r) kValues)) (Metric m k)
          = Some (JNum (s + metric_value m (rankedPassages r) k))"
    using assms(1,2) Cons.prems
    by (simp add: map_of_foldl_add_to distinct_calculateAllMetrics map_of_calculateAllMetrics js_add_def)
  show ?case
    unfolding foldl_Cons using Cons.IH [OF step] by (simp add: add.assoc)
qed

lemma distinct_add_to: "distinct (map fst acc) \<Longrightarrow> distinct (map fst (add_to n v acc))"
  by (simp add: add_to_def distinct_update)

lemma distinct_foldl_add_to:
  "distinct (map fst acc) \<Longrightarrow>
   distinct (map fst (foldl (\<lambda>acc' (metricName, v). add_to metricName v acc') acc entries))"
  by (induction entries arbitrary: acc) (auto simp: distinct_add_to)

lemma distinct_sums:
  "distinct (map fst acc) \<Longrightarrow>
   distinct (map fst (foldl (\<lambda>acc result.
                    foldl (\<lambda>acc' (metricName, v). add_to metricName v acc') acc
                      (calculateAllMetrics (rankedPassages result) kValues)) acc rs))"
  by (induction rs arbitrary: acc) (simp_all add: distinct_foldl_add_to)

lemma map_of_foldl_divide:
  "distinct (map fst ms) \<Longrightarrow>
   map_of (foldl (\<lambda>avg (metricName, s). AList.update metricName (divide_by s n) avg) avg0 ms) key
   = (case map_of ms key of None \<Rightarrow> map_of avg0 key | Some s \<Rightarrow> Some (divide_by s n))"
proof (induction ms arbitrary: avg0)
  case Nil
  then show ?case by simp
next
  case (Cons e ms)
  obtain m v where e: "e = (m, v)" by (cases e)
  from Cons.prems have d: "distinct (map fst ms)" and n: "m \<notin> fst ` set ms"
    by (simp_all add: e)
  from n have none: "map_of ms m = None" by (simp add: map_of_eq_None_iff)
  show ?case
    unfolding e foldl_Cons prod.case Cons.IH [OF d]
    by (auto simp: update_conv' none split: option.splits)
qed

lemma averages_metric:
  assumes v: "valid_results queryResults \<noteq> []" and k: "k \<in> set kValues" and m: "m \<in> metric_names"
  shows "map_of (calculateAverageMetrics queryResults kValues) (Metric m k)
         = Some (JNum (sum_list (map (\<lambda>r. metric_value m (rankedPassages r) k) (valid_results queryResults))
                        / real (length (valid_results queryResults))))"
proof -
  let ?valid = "valid_results queryResults"
  let ?init = "foldl (\<lambda>acc k.
                           AList.update (Metric ''Recall'' k) (JNum 0)
                             (AList.update (Metric ''Precision'' k) (JNum 0)
                                (AList.update (Metric ''NDCG'' k) (JNum 0)
                                   (AList.update (Metric ''MRR'' k) (JNum 0) acc))))
                    [] kValues"
  let ?sums = "foldl (\<lambda>acc result.
                           foldl (\<lambda>acc' (metricName, v). add_to metricName v acc') acc
                             (calculateAllMetrics (rankedPassages result) kValues))
                    ?init ?valid"
  from v have ne: "queryResults \<noteq> []" by (auto simp: valid_results_def)
  have z: "map_of ?init (Metric m k) = Some (JNum 0)"
    using map_of_foldl_update4 [of "\<lambda>_ _. JNum 0" "[]" kValues "Metric m k"] k m by simp
  have d0: "distinct (map fst ?init)" by (rule distinct_foldl_update4) simp
  have s: "map_of ?sums (Metric m k)
        = Some (JNum (sum_list (map (\<lambda>r. metric_value m (rankedPassages r) k) ?valid)))"
    using sums_invariant [OF k m z] by simp
  have d: "distinct (map fst ?sums)" by (rule distinct_sums [OF d0])
  have "map_of (calculateAverageMetrics queryResults kValues) (Metric m k)
        = map_of (foldl (\<lambda>avg (metricName, s). AList.update metricName (divide_by s (length ?valid)) avg)
                    [] ?sums) (Metric m k)"
    using v ne by (simp add: calculateAverageMetrics_def valid_results_def Let_def update_conv')
  also have "\<dots> = Some (divide_by (JNum (sum_list (map (\<lambda>r. metric_value m (rankedPassages r) k) ?valid)))
                        (length ?valid))"
    by (simp add: map_of_foldl_divide [OF d] s)
  finally show ?thesis by (simp add: divide_by_def)
qed

lemma averages_counts:
  assumes v: "valid_results queryResults \<noteq> []"
  shows "map_of (calculateAverageMetrics queryResults kValues) (Prop ''totalQueries'')
           = Some (JNum (real (length queryResults)))"
    and "map_of (calculateAverageMetrics queryResults kValues) (Prop ''validQueries'')
           = Some (JNum (real (length (valid_results queryResults))))"
    and "map_of (calculateAverageMetrics queryResults kValues) (Prop ''errorQueries'')
           = Some (JNum (real (length queryResults - length (valid_results queryResults))))"
proof -
  from v have ne: "queryResults \<noteq> []" by (auto simp: valid_results_def)
  show "map_of (calculateAverageMetrics queryResults kValues) (Prop ''totalQueries'')
           = Some (JNum (real (length queryResults)))"
    using v ne by (simp add: calculateAverageMetrics_def valid_results_def Let_def update_conv')
  show "map_of (calculateAverageMetrics queryResults kValues) (Prop ''validQueries'')
           = Some (JNum (real (length (valid_results queryResults))))"
    using v ne by (simp add: calculateAverageMetrics_def valid_results_def Let_def update_conv')
  show "map_of (calculateAverageMetrics queryResults kValues) (Prop ''errorQueries'')
           = Some (JNum (real (length queryResults - length (valid_results queryResults))))"
    using v ne by (simp add: calculateAverageMetrics_def valid_results_def Let_def update_conv')
qed


text \<open>
  C8, as stated, fails on the empty list: \<open>calculateAverageMetrics\<close> returns the empty
  object there, not the object that reports that there is no valid result.
\<close>

theorem calculateAverageMetrics_empty_counterexample:
  "calculateAverageMetrics [] [1, 3, 5, 10] = []
   \<and> calculateAverageMetrics [] [1, 3, 5, 10] \<noteq> no_valid_results"
  by (simp add: calculateAverageMetrics_def no_valid_results_def)


text \<open>
  C8, amended. On the empty list \<open>calculateAverageMetrics\<close> returns the empty object. On
  a list that is not empty and whose every entry has a truthy \<open>error\<close>, it returns the
  object whose \<open>error\<close> property says that there is no valid result. With at least one
  entry whose \<open>error\<close> is falsy, each of the four metrics at each requested k is the
  arithmetic mean over those entries only, and the object carries the numbers of all,
  of valid and of failed queries.
\<close>

theorem calculateAverageMetrics_cases:
  "(queryResults = [] \<longrightarrow> calculateAverageMetrics queryResults kValues = [])
   \<and> (queryResults \<noteq> [] \<and> valid_results queryResults = [] \<longrightarrow>
        calculateAverageMetrics queryResults kValues = no_valid_results)
   \<and> (valid_results queryResults \<noteq> [] \<longrightarrow>
        (\<forall>m \<in> metric_names. \<forall>k \<in> set kValues.
           map_of (calculateAverageMetrics queryResults kValues) (Metric m k)
           = Some (JNum (sum_list (map (\<lambda>r. metric_value m (rankedPassages r) k)
                                    (valid_results queryResults))
                         / real (length (valid_results queryResults)))))
        \<and> map_of (calculateAverageMetrics queryResults kValues) (Prop ''totalQueries'')
            = Some (JNum (real (length queryResults)))
        \<and> map_of (calculateAverageMetrics queryResults kValues) (Prop ''validQueries'')
            = Some (JNum (real (length (valid_results queryResults))))
        \<and> map_of (calculateAverageMetrics queryResults kValues) (Prop ''errorQueries'')
            = Some (JNum (real (length queryResults - length (valid_results queryResults)))))"
proof (intro conjI impI ballI)
  assume "queryResults = []"
  then show "calculateAverageMetrics queryResults kValues = []"
    by (simp add: calculateAverageMetrics_def)
next
  assume "queryResults \<noteq> [] \<and> valid_results queryResults = []"
  then show "calculateAverageMetrics queryResults kValues = no_valid_results"
    by (simp add: calculateAverageMetrics_def valid_results_def no_valid_results_def)
next
  fix m k
  assume "valid_results queryResults \<noteq> []" "m \<in> metric_names" "k \<in> set kValues"
  then show "map_of (calculateAverageMetrics queryResults kValues) (Metric m k)
           = Some (JNum (sum_list (map (\<lambda>r. metric_value m (rankedPassages r) k)
                                    (valid_results queryResults))
                         / real (length (valid_results queryResults))))"
    by (simp add: averages_metric)
qed (simp_all add: averages_counts)

lemma valid_sample: "valid_results sample_results = [\<lparr>error = JUndefined, rankedPassages = [rel, irr]\<rparr>,
      \<lparr>error = JUndefined, rankedPassages = [irr, rel]\<rparr>]"
  by (simp add: valid_results_def sample_results_def)

theorem calculateAverageMetrics_cases_witness:
  "calculateAverageMetrics [] [2] = []
   \<and> calculateAverageMetrics [\<lparr>error = JStr ''timeout'', rankedPassages = []\<rparr>] [2] = no_valid_results
   \<and> map_of (calculateAverageMetrics sample_results [2]) (Metric ''MRR'' 2) = Some (JNum (3 / 4))
   \<and> map_of (calculateAverageMetrics sample_results [2]) (Prop ''totalQueries'') = Some (JNum 3)
   \<and> map_of (calculateAverageMetrics sample_results [2]) (Prop ''validQueries'') = Some (JNum 2)
   \<and> map_of (calculateAverageMetrics sample_results [2]) (Prop ''errorQueries'') = Some (JNum 1)"
proof -
  have a: "calculateAverageMetrics [] [2] = []"
    using calculateAverageMetrics_cases [of "[]" "[2]"] by simp
  have b: "calculateAverageMetrics [\<lparr>error = JStr ''timeout'', rankedPassages = []\<rparr>] [2] = no_valid_results"
    using calculateAverageMetrics_cases [of "[\<lparr>error = JStr ''timeout'', rankedPassages = []\<rparr>]" "[2]"]
    by (simp add: valid_results_def)
  have m: "''MRR'' \<in> metric_names" by (simp add: metric_names_def)
  have mrr: "calculateMRR [rel, irr] 2 = 1" "calculateMRR [irr, rel] 2 = 1 / 2"
    by (simp_all add: calculateMRR_def rel_def irr_def upt_rec)
  have c: "map_of (calculateAverageMetrics sample_results [2]) (Metric ''MRR'' 2) = Some (JNum (3 / 4))
   \<and> map_of (calculateAverageMetrics sample_results [2]) (Prop ''totalQueries'') = Some (JNum 3)
   \<and> map_of (calculateAverageMetrics sample_results [2]) (Prop ''validQueries'') = Some (JNum 2)
   \<and> map_of (calculateAverageMetrics sample_results [2]) (Prop ''errorQueries'') = Some (JNum 1)"
    using calculateAverageMetrics_cases [of sample_results "[2]"] m
    by (simp add: valid_sample metric_value_def mrr) (simp add: sample_results_def)
  from a b c show ?thesis by simp
qed


section \<open>Score normalization\<close>

lemma underflow_bound_less_1: "0 < underflow_bound \<and> underflow_bound < 1"
  by (simp add: underflow_bound_def)

lemma overflow_bound_greater_9: "9 < overflow_bound"
  by (simp add: overflow_bound_def)

lemma to_double_in_range:
  "underflow_bound < r \<Longrightarrow> r < overflow_bound \<Longrightarrow> to_double r = Finite r"
  by (simp add: to_double_def)


lemma Math_exp_0: "Math_exp 0 = Finite 1"
  using underflow_bound_less_1 overflow_bound_greater_9
  by (simp add: Math_exp_def to_double_in_range)

lemma sigmoid_in_range:
  assumes "underflow_bound < exp (- x)" and "1 + exp (- x) < overflow_bound"
  shows "sigmoid x = JNum (1 / (1 + exp (- x)))"
proof -
  have e: "Math_exp (- x) = Finite (exp (- x))"
    using assms by (simp add: Math_exp_def to_double_in_range)
  have "underflow_bound < 1 + exp (- x)"
    using underflow_bound_less_1 exp_gt_zero [of "- x"] by linarith
  then have s: "to_double (1 + exp (- x)) = Finite (1 + exp (- x))"
    using assms(2) by (rule to_double_in_range)
  have "1 + exp (- x) \<noteq> 0" using exp_gt_zero [of "- x"] by linarith
  then show ?thesis by (simp add: sigmoid_def e double_plus_def s double_divide_def)
qed

lemma sigmoid_0: "sigmoid 0 = JNum (1 / 2)"
  using sigmoid_in_range [of 0] underflow_bound_less_1 overflow_bound_greater_9 by simp


lemma foldl_double_plus_in_range:
  assumes "\<forall>x \<in> set xs. underflow_bound < exp x" and "underflow_bound < a"
    and "a + (\<Sum>x \<leftarrow> xs. exp x) < overflow_bound"
  shows "foldl double_plus (Finite a) (map Math_exp xs) = Finite (a + (\<Sum>x \<leftarrow> xs. exp x))"
  using assms
proof (induction xs arbitrary: a)
  case Nil
  then show ?case by simp
next
  case (Cons x xs)
  have nn: "0 \<le> (\<Sum>y \<leftarrow> xs. exp y)" by (rule sum_list_nonneg) auto
  have pos: "0 < a" using Cons.prems(2) underflow_bound_less_1 by simp
  have x: "underflow_bound < exp x" using Cons.prems(1) by simp
  have "exp x < overflow_bound" using Cons.prems(3) nn pos by simp
  with x have m: "Math_exp x = Finite (exp x)"
    by (simp add: Math_exp_def to_double_in_range)
  have lo: "underflow_bound < a + exp x" using Cons.prems(2) exp_gt_zero [of x] by linarith
  have hi: "a + exp x < overflow_bound" using Cons.prems(3) nn by simp
  have s: "double_plus (Finite a) (Finite (exp x)) = Finite (a + exp x)"
    by (simp add: double_plus_def to_double_in_range [OF lo hi])
  have "foldl double_plus (Finite (a + exp x)) (map Math_exp xs)
        = Finite (a + exp x + (\<Sum>y \<leftarrow> xs. exp y))"
    using Cons.prems(1,3) lo by (intro Cons.IH) (simp_all add: add.assoc)
  then show ?case by (simp add: m s add.assoc)
qed

lemma softmax_in_range:
  assumes "row \<noteq> []" and "in_range row"
  shows "softmax row = Inr (map JNum (spec_softmax row))"
proof -
  from assms(1) obtain x xs where row: "row = x # xs" by (cases row) auto
  let ?s = "\<Sum>y \<leftarrow> row. exp y"
  have lo: "\<forall>y \<in> set row. underflow_bound < exp y" and hi: "?s < overflow_bound"
    using assms(2) by (simp_all add: in_range_def)
  have nn: "0 \<le> (\<Sum>y \<leftarrow> xs. exp y)" by (rule sum_list_nonneg) auto
  have pos: "0 < ?s" unfolding row using nn exp_gt_zero [of x] by (simp add: add_pos_nonneg)
  have each: "Math_exp y = Finite (exp y)" if "y \<in> set row" for y
  proof -
    have "exp y \<le> ?s" using that by (intro member_le_sum_list) auto
    with hi have "exp y < overflow_bound" by simp
    with lo that show ?thesis by (simp add: Math_exp_def to_double_in_range)
  qed
  have sum: "foldl double_plus (Math_exp x) (map Math_exp xs) = Finite ?s"
    using foldl_double_plus_in_range [of xs "exp x"] lo hi each [of x] by (simp add: row)
  have "double_divide (Math_exp y) (Finite ?s) = JNum (exp y / ?s)" if "y \<in> set row" for y
    using each [OF that] pos by (simp add: double_divide_def)
  then have "map (\<lambda>e. double_divide e (Finite ?s)) (map Math_exp row)
             = map JNum (spec_softmax row)"
    by (simp add: spec_softmax_def)
  then show ?thesis
    using sum by (simp add: softmax_def Let_def row)
qed

text \<open>
  The quotient \<open>double_divide\<close> is taken of 1 and a sum that holds 1, and of a summand and
  its sum. Where the sum is a real, every summand is a real between 0 and the sum, so
  that the quotient is \<open>NaN\<close> or a number from 0 to 1, never \<open>Infinity\<close>.
\<close>

lemma Math_exp_cases:
  "Math_exp x = Infinity \<or> Math_exp x = Finite 0 \<or> (Math_exp x = Finite (exp x) \<and> underflow_bound < exp x)"
  by (simp add: Math_exp_def to_double_def)

lemma double_plus_Infinity:
  "double_plus Infinity b = Infinity" "double_plus a Infinity = Infinity"
  by (simp_all add: double_plus_def split: magnitude.splits)

lemma foldl_double_plus_Infinity: "foldl double_plus Infinity es = Infinity"
  by (induction es) (simp_all add: double_plus_Infinity)

lemma double_plus_cases:
  assumes "a = 0 \<or> underflow_bound < a" and "v = 0 \<or> underflow_bound < v"
  shows "double_plus (Finite a) (Finite v) = Infinity
         \<or> (double_plus (Finite a) (Finite v) = Finite (a + v)
            \<and> (a + v = 0 \<or> underflow_bound < a + v))"
proof -
  have "0 \<le> a" "0 \<le> v" using assms underflow_bound_less_1 by auto
  moreover have "a = 0 \<and> v = 0" if "a + v \<le> underflow_bound"
    using that assms underflow_bound_less_1 by auto
  ultimately show ?thesis
    by (auto simp: double_plus_def to_double_def)
qed

lemma foldl_double_plus_bound:
  assumes "foldl double_plus (Finite a) (map Math_exp xs) = Finite s"
    and "a = 0 \<or> underflow_bound < a"
  shows "a \<le> s \<and> (\<forall>y \<in> set xs. \<exists>v. Math_exp y = Finite v \<and> 0 \<le> v \<and> v \<le> s)"
  using assms
proof (induction xs arbitrary: a)
  case Nil
  then show ?case by simp
next
  case (Cons x xs)
  have a0: "0 \<le> a" using Cons.prems(2) underflow_bound_less_1 by auto
  from Math_exp_cases [of x] Cons.prems(1) obtain v where
    v: "Math_exp x = Finite v" "v = 0 \<or> underflow_bound < v"
    by (auto simp: double_plus_Infinity foldl_double_plus_Infinity)
  have v0: "0 \<le> v" using v(2) underflow_bound_less_1 by auto
  from double_plus_cases [OF Cons.prems(2) v(2)] Cons.prems(1) v(1)
  have p: "double_plus (Finite a) (Finite v) = Finite (a + v)"
    and r: "a + v = 0 \<or> underflow_bound < a + v"
    by (auto simp: foldl_double_plus_Infinity)
  from Cons.prems(1) have "foldl double_plus (Finite (a + v)) (map Math_exp xs) = Finite s"
    by (simp add: v(1) p)
  from Cons.IH [OF this r]
  have le: "a + v \<le> s" and rest: "\<forall>y \<in> set xs. \<exists>w. Math_exp y = Finite w \<and> 0 \<le> w \<and> w \<le> s"
    by simp_all
  from le a0 v0 have "a \<le> s" "v \<le> s" by simp_all
  with v(1) v0 rest show ?case by simp
qed

lemma summand_at_most_sum:
  assumes "foldl double_plus (Math_exp x) (map Math_exp xs) = Finite s" and "y \<in> set (x # xs)"
  shows "\<exists>v. Math_exp y = Finite v \<and> 0 \<le> v \<and> v \<le> s"
proof -
  from Math_exp_cases [of x] assms(1) obtain a where
    a: "Math_exp x = Finite a" "a = 0 \<or> underflow_bound < a"
    by (auto simp: foldl_double_plus_Infinity)
  have a0: "0 \<le> a" using a(2) underflow_bound_less_1 by auto
  from assms(1) have "foldl double_plus (Finite a) (map Math_exp xs) = Finite s"
    by (simp add: a(1))
  from foldl_double_plus_bound [OF this a(2)] a(1) a0 assms(2) show ?thesis by auto
qed

lemma softmax_entries:
  assumes "softmax row = Inr probabilities" and "p \<in> set probabilities"
  shows "p = JNaN \<or> (\<exists>r. p = JNum r \<and> 0 \<le> r \<and> r \<le> 1)"
proof -
  from assms(1) obtain x xs where row: "row = x # xs"
    by (cases row) (simp_all add: softmax_def)
  let ?sum = "foldl double_plus (Math_exp x) (map Math_exp xs)"
  from assms have "\<exists>y \<in> set row. p = double_divide (Math_exp y) ?sum"
    by (auto simp: softmax_def Let_def row)
  then obtain y where y: "y \<in> set (x # xs)" "p = double_divide (Math_exp y) ?sum"
    unfolding row by blast
  show ?thesis
  proof (cases ?sum)
    case Infinity
    then show ?thesis
      unfolding y(2) by (cases "Math_exp y") (simp_all add: double_divide_def)
  next
    case (Finite s)
    from summand_at_most_sum [OF Finite y(1)] obtain v where
      v: "Math_exp y = Finite v" "0 \<le> v" "v \<le> s" by blast
    then show ?thesis
      unfolding y(2) Finite by (simp add: double_divide_def divide_le_eq_1)
  qed
qed


lemma softmax_nonempty: "row \<noteq> [] \<Longrightarrow> softmax row = Inr (probabilities_of row)"
  by (cases row) (simp_all add: softmax_def probabilities_of_def Let_def)

lemma map_throwing_softmax:
  "[] \<notin> set rows \<Longrightarrow> map_throwing softmax rows = Inr (map probabilities_of rows)"
  by (induction rows) (auto simp: softmax_nonempty)

lemma map_throwing_softmax_empty:
  "[] \<in> set rows \<Longrightarrow> map_throwing softmax rows = Inl ReduceOfEmptyArray"
proof (induction rows)
  case Nil
  then show ?case by simp
next
  case (Cons row rows)
  show ?case
  proof (cases "row = []")
    case True
    then show ?thesis by (simp add: softmax_def)
  next
    case False
    with Cons show ?thesis by (simp add: softmax_nonempty)
  qed
qed

lemma normalize_each_row:
  assumes "dims lg = [n, cols]"
  shows "normalize p lg =
           (if cols \<noteq> 1 \<and> [] \<in> set (tolist lg) then Inl ReduceOfEmptyArray
            else Inr (map (row_score cols p) (tolist lg)))"
proof (cases "cols = 1")
  case True
  with assms show ?thesis by (simp add: normalize_def Let_def row_score_def)
next
  case False
  show ?thesis
  proof (cases "[] \<in> set (tolist lg)")
    case True
    with False assms show ?thesis
      by (simp add: normalize_def Let_def map_throwing_softmax_empty)
  next
    case e: False
    with False assms show ?thesis
      by (simp add: normalize_def Let_def map_throwing_softmax row_score_def comp_def)
  qed
qed

lemma row_score_softmax:
  assumes "1 < cols" and "length row = cols" and "p < cols" and "in_range row"
  shows "row_score cols p row = JNum (spec_softmax row ! p)"
proof -
  from assms(1,2) have "row \<noteq> []" by auto
  from softmax_in_range [OF this assms(4)]
  have "probabilities_of row = map JNum (spec_softmax row)"
    by (simp add: probabilities_of_def)
  moreover have "length (spec_softmax row) = cols"
    using assms(2) by (simp add: spec_softmax_def)
  ultimately show ?thesis
    using assms(1,3) by (simp add: row_score_def index_or_undefined_def)
qed

lemma exp_1_lower: "(2.7166::real) < exp 1"
proof -
  obtain t where t: "exp (1::real) = (\<Sum>m<6. 1 ^ m / fact m) + exp t / fact 6 * 1 ^ 6"
    using Maclaurin_exp_le [of 1 6] by blast
  have s: "(\<Sum>m<6. (1::real) ^ m / fact m) = 163 / 60"
    by (simp add: eval_nat_numeral)
  have "0 < exp t / fact 6" by simp
  then have "163 / 60 < exp (1::real)" unfolding t s by simp
  then show ?thesis by simp
qed

lemma exp_1_upper: "exp (1::real) < 2.7184"
proof -
  obtain t where t: "\<bar>t\<bar> \<le> \<bar>1::real\<bar>"
      "exp (1::real) = (\<Sum>m<8. 1 ^ m / fact m) + exp t / fact 8 * 1 ^ 8"
    using Maclaurin_exp_le [of 1 8] by blast
  have s: "(\<Sum>m<8. (1::real) ^ m / fact m) = 685 / 252"
    by (simp add: eval_nat_numeral)
  have f: "fact 8 = (40320::real)" by (simp add: eval_nat_numeral)
  have "exp t \<le> exp 1" using t(1) by simp
  also have "\<dots> \<le> 3" by (rule exp_le)
  finally have "exp t / 40320 \<le> 3 / 40320" by simp
  then have "exp (1::real) \<le> 685 / 252 + 3 / 40320" unfolding t(2) s f by simp
  then show ?thesis by simp
qed

lemma exp_2_bounds: "(7::real) < exp 2 \<and> exp 2 < (8::real)"
proof -
  have e2: "exp (2::real) = exp 1 ^ 2" using exp_of_nat_mult [of 2 "1::real"] by simp
  have "(2.7166::real) ^ 2 < exp 1 ^ 2" using exp_1_lower by (intro power_strict_mono) auto
  moreover have "exp (1::real) ^ 2 < 2.7184 ^ 2" using exp_1_upper by (intro power_strict_mono) auto
  ultimately show ?thesis unfolding e2 by (simp add: power2_eq_square)
qed

lemma exp_4_bounds: "(54.41::real) < exp 4 \<and> exp 4 < (54.70::real)"
proof -
  have e4: "exp (4::real) = exp 1 ^ 4" using exp_of_nat_mult [of 4 "1::real"] by simp
  have "(2.7166::real) ^ 4 < exp 1 ^ 4" using exp_1_lower by (intro power_strict_mono) auto
  moreover have "exp (1::real) ^ 4 < 2.7184 ^ 4" using exp_1_upper by (intro power_strict_mono) auto
  ultimately show ?thesis unfolding e4 by (simp add: power4_eq_xxxx)
qed

lemma exp_1000_overflows: "overflow_bound \<le> exp 1000"
proof -
  have "(32::real) \<le> exp 4" using exp_4_bounds by simp
  then have "(32::real) ^ 250 \<le> exp 4 ^ 250" by (rule power_mono) simp
  also have "\<dots> = exp 1000" using exp_of_nat_mult [of 250 "4::real"] by simp
  finally have "(32::real) ^ 250 \<le> exp 1000" .
  moreover have "overflow_bound \<le> 32 ^ 250" by (simp add: overflow_bound_def)
  ultimately show ?thesis by simp
qed

lemma softmax_example_value:
  "0.98195 \<le> spec_softmax [-2, 2] ! 1 \<and> spec_softmax [-2, 2] ! 1 < 0.98205"
proof -
  have e: "exp (4::real) = exp 2 * exp 2" by (simp flip: exp_add)
  have v: "spec_softmax [-2, 2] ! 1 = exp 4 / (1 + exp 4)"
    by (simp add: spec_softmax_def e exp_minus field_simps)
  have "(0.98195::real) \<le> exp 4 / (1 + exp 4)" using exp_4_bounds
    by (simp add: field_simps)
  moreover have "exp 4 / (1 + exp 4) < (0.98205::real)" using exp_4_bounds
    by (simp add: field_simps)
  ultimately show ?thesis unfolding v by simp
qed

lemma in_range_example: "in_range [-2, 2]"
proof -
  have "inverse (8::real) < inverse (exp 2)"
    using exp_2_bounds by (intro less_imp_inverse_less) auto
  then have lo: "1 / 8 < exp (- 2 :: real)" by (simp add: exp_minus)
  have "exp (- 2 :: real) < 1" by simp
  with exp_2_bounds overflow_bound_greater_9
  have hi: "exp (- 2 :: real) + exp 2 < overflow_bound" by linarith
  have u: "underflow_bound < 1 / 8" by (simp add: underflow_bound_def)
  from lo u have "underflow_bound < exp (- 2 :: real)" by linarith
  moreover from u exp_2_bounds have "underflow_bound < exp (2 :: real)" by linarith
  ultimately show ?thesis
    unfolding in_range_def using hi by simp
qed

lemma getScores_loaded:
  assumes "pairs \<noteq> []" and "tok (map fst pairs) (map snd pairs) = Inr feats"
    and "forward mdl feats = Inr lg"
  shows "getScores (loaded modelName mdl tok) modelName pairs
         = (case normalize (positiveClassIndex (id2label mdl)) lg of
              Inl e \<Rightarrow> Inl e
            | Inr scores \<Rightarrow> Inr (map to_result scores))"
  using assms by (simp add: getScores_def loaded_def)

lemma positiveClassIndex_default:
  "positiveClassIndex [(0, ''LABEL_0''), (1, ''LABEL_1'')] = 1"
  by (simp add: positiveClassIndex_def Object_keys_def test_relevant_positive_def to_lower_def)

lemma positiveClassIndex_match:
  "positiveClassIndex [(0, ''POSITIVE''), (1, ''NEGATIVE'')] = 0"
  by (simp add: positiveClassIndex_def Object_keys_def test_relevant_positive_def to_lower_def)

text \<open>
  Within the range of doubles the scores of \<open>getScores\<close> are those of the formulas: a
  single logit 0 gives 0.5, and the row \<open>[-2, 2]\<close> of a two-class model without a
  matching label gives the softmax of the row at index 1, which rounds to 0.9820.
\<close>

lemma getScores_examples:
  "getScores (loaded ''m'' single_logit_model pad_tokenizer) ''m'' [(''q'', JStr ''a'')]
     = Inr [\<lparr>score = JNum (1 / 2), label = ''NOT_RELEVANT''\<rparr>]
   \<and> map score (projr (getScores
        (loaded ''m'' (class_model [(0, ''LABEL_0''), (1, ''LABEL_1'')] [-2, 2]) pad_tokenizer) ''m''
        [(''q'', JStr ''a'')]))
     = [JNum (exp 2 / (exp (- 2) + exp 2))]
   \<and> (0.98195::real) \<le> exp 2 / (exp (- 2) + exp 2)
   \<and> exp 2 / (exp (- 2) + exp 2) < (0.98205::real)"
proof -
  let ?mdl = "class_model [(0, ''LABEL_0''), (1, ''LABEL_1'')] [-2, 2]"
  have a: "getScores (loaded ''m'' single_logit_model pad_tokenizer) ''m'' [(''q'', JStr ''a'')]
     = Inr [\<lparr>score = JNum (1 / 2), label = ''NOT_RELEVANT''\<rparr>]"
    by (simp add: getScores_def loaded_def single_logit_model_def pad_tokenizer_def
        normalize_def sigmoid_row_def sigmoid_0 to_result_def)
  have v: "spec_softmax [-2, 2] ! 1 = exp 2 / (exp (- 2) + exp 2)"
    by (simp add: spec_softmax_def)
  have n: "normalize 1 \<lparr>dims = [1, 2], tolist = [[-2, 2]]\<rparr> = Inr [JNum (spec_softmax [-2, 2] ! 1)]"
    using normalize_each_row [of "\<lparr>dims = [1, 2], tolist = [[-2, 2]]\<rparr>" 1 2 1]
      row_score_softmax [of 2 "[-2, 2]" 1, OF _ _ _ in_range_example]
    by simp
  have p: "positiveClassIndex (id2label ?mdl) = 1"
    by (simp only: class_model_def model.select_convs positiveClassIndex_default)
  have "getScores (loaded ''m'' ?mdl pad_tokenizer) ''m'' [(''q'', JStr ''a'')]
         = (case normalize (positiveClassIndex (id2label ?mdl))
                  \<lparr>dims = [1, 2], tolist = [[-2, 2]]\<rparr> of
              Inl e \<Rightarrow> Inl e
            | Inr scores \<Rightarrow> Inr (map to_result scores))"
    by (rule getScores_loaded [of _ _ "[[]]"]) (simp_all add: pad_tokenizer_def class_model_def)
  then have b: "map score (projr (getScores (loaded ''m'' ?mdl pad_tokenizer) ''m''
        [(''q'', JStr ''a'')])) = [JNum (spec_softmax [-2, 2] ! 1)]"
    by (simp only: p n) (simp add: to_result_def)
  show ?thesis using a b softmax_example_value unfolding v by simp
qed

text \<open>
  C2, at the row \<open>[1000, 0]\<close> of a two-class model whose label 0 is \<open>POSITIVE\<close>, so that
  the positive class is index 0. The claim gives the score as the softmax of the row at
  index 0, a number above 0.999. In \<open>getScores\<close> the exponential of 1000 is \<open>Infinity\<close>,
  the sum is \<open>Infinity\<close>, and the score is \<open>Infinity / Infinity\<close>, which is \<open>NaN\<close>.
\<close>

theorem getScores_softmax_overflow:
  "getScores (loaded ''m'' (class_model [(0, ''POSITIVE''), (1, ''NEGATIVE'')] [1000, 0]) pad_tokenizer)
      ''m'' [(''q'', JStr ''a'')]
     = Inr [\<lparr>score = JNaN, label = ''NOT_RELEVANT''\<rparr>]
   \<and> positiveClassIndex [(0, ''POSITIVE''), (1, ''NEGATIVE'')] = 0
   \<and> softmax [1000, 0] = Inr [JNaN, JNum 0]
   \<and> (0.999::real) < exp 1000 / (exp 1000 + exp 0)
   \<and> exp 1000 / (exp 1000 + exp 0) < (1::real)"
proof -
  let ?mdl = "class_model [(0, ''POSITIVE''), (1, ''NEGATIVE'')] [1000, 0]"
  have i: "Math_exp 1000 = Infinity"
    using exp_1000_overflows by (simp add: Math_exp_def to_double_def)
  have s: "softmax [1000, 0] = Inr [JNaN, JNum 0]"
    by (simp add: softmax_def Let_def Math_exp_0 i double_plus_def double_divide_def)
  have n: "normalize 0 \<lparr>dims = [1, 2], tolist = [[1000, 0]]\<rparr> = Inr [JNaN]"
    by (simp add: normalize_def Let_def s index_or_undefined_def)
  have p: "positiveClassIndex (id2label ?mdl) = 0"
    by (simp only: class_model_def model.select_convs positiveClassIndex_match)
  have "getScores (loaded ''m'' ?mdl pad_tokenizer) ''m'' [(''q'', JStr ''a'')]
         = (case normalize (positiveClassIndex (id2label ?mdl))
                  \<lparr>dims = [1, 2], tolist = [[1000, 0]]\<rparr> of
              Inl e \<Rightarrow> Inl e
            | Inr scores \<Rightarrow> Inr (map to_result scores))"
    by (rule getScores_loaded [of _ _ "[[]]"]) (simp_all add: pad_tokenizer_def class_model_def)
  then have g: "getScores (loaded ''m'' ?mdl pad_tokenizer) ''m'' [(''q'', JStr ''a'')]
     = Inr [\<lparr>score = JNaN, label = ''NOT_RELEVANT''\<rparr>]"
    by (simp only: p n) (simp add: to_result_def)
  have "(1001::real) \<le> exp 1000" using exp_ge_add_one_self [of "1000::real"] by simp
  then have v: "(0.999::real) < exp 1000 / (exp 1000 + exp 0)"
    "exp 1000 / (exp 1000 + exp 0) < (1::real)"
    by (simp_all add: field_simps add_pos_pos)
  show ?thesis using g s v positiveClassIndex_match by simp
qed

section \<open>Reranking\<close>

lemma built_Nil [simp]: "built documents i [] = []"
  by (simp add: built_def)

lemma built_append:
  "built documents i (ss @ ts) = built documents i ss @ built documents (i + length ss) ts"
  by (simp add: built_def enumerate_append_eq)

lemma length_built [simp]: "length (built documents i ss) = length ss"
  by (simp add: built_def)

lemma chunk_results_built:
  "map (\<lambda>(j, result). chunk_result documents (i + j) (score result)) (enumerate k rs)
   = built documents (i + k) (map score rs)"
  by (induction rs arbitrary: k) (simp_all add: built_def)

lemma slice_chunk:
  "slice documents i (min (i + b) (length documents)) = take b (drop i documents)"
  by (simp add: slice_def min_def)

lemma rerank_loop_returns:
  assumes b: "0 < b"
    and G: "\<And>chunk. chunk \<noteq> [] \<Longrightarrow> set chunk \<subseteq> set documents \<Longrightarrow>
              \<exists>rs. getScores c modelName (pairs_of query chunk) = Inr rs
                   \<and> list_all2 (\<lambda>p r. R p (score r)) (pairs_of query chunk) rs"
  shows "\<exists>ss. list_all2 R (pairs_of query (drop i documents)) ss
              \<and> rerank_loop c modelName query documents b i acc
                  = Some (Inr (acc @ built documents i ss))"
proof (induction "length documents - i" arbitrary: i acc rule: less_induct)
  case less
  show ?case
  proof (cases "i < length documents")
    case False
    then show ?thesis
      by (subst rerank_loop.simps) (simp add: pairs_of_def)
  next
    case True
    let ?chunk = "take b (drop i documents)"
    let ?pairs = "pairs_of query ?chunk"
    from True b have ne: "?chunk \<noteq> []" by simp
    have sub: "set ?chunk \<subseteq> set documents"
      by (meson set_drop_subset set_take_subset subset_trans)
    from G [OF ne sub] obtain rs where
      rs: "getScores c modelName ?pairs = Inr rs" "list_all2 (\<lambda>p r. R p (score r)) ?pairs rs"
      by blast
    have len: "length rs = min b (length documents - i)"
      using list_all2_lengthD [OF rs(2)] by (simp add: pairs_of_def min.commute)
    from True b have "length documents - (i + b) < length documents - i" by simp
    from less [OF this, of "acc @ built documents i (map score rs)"]
    obtain ss where
      ss: "list_all2 R (pairs_of query (drop (i + b) documents)) ss"
        "rerank_loop c modelName query documents b (i + b) (acc @ built documents i (map score rs))
           = Some (Inr ((acc @ built documents i (map score rs)) @ built documents (i + b) ss))"
      by blast
    have idx: "built documents (i + b) ss = built documents (i + length (map score rs)) ss"
    proof (cases "b \<le> length documents - i")
      case True
      with len show ?thesis by simp
    next
      case False
      then have "drop (i + b) documents = []" by simp
      with ss(1) have "ss = []" by (simp add: pairs_of_def)
      then show ?thesis by simp
    qed
    have split: "pairs_of query (drop i documents) = ?pairs @ pairs_of query (drop (i + b) documents)"
      by (simp add: pairs_of_def flip: map_append) (metis add.commute append_take_drop_id drop_drop)
    have all: "list_all2 R (pairs_of query (drop i documents)) (map score rs @ ss)"
      unfolding split using rs(2) ss(1) by (intro list_all2_appendI) (simp_all add: list_all2_map2)
    have "rerank_loop c modelName query documents b i acc
            = Some (Inr (acc @ built documents i (map score rs @ ss)))"
      using True rs(1) ss(2) chunk_results_built [of documents i 0 rs]
      by (subst rerank_loop.simps)
         (simp add: slice_chunk Let_def built_append idx flip: pairs_of_def)
    with all show ?thesis by blast
  qed
qed

lemma getScores_accepted:
  assumes "models c modelName = Some mdl" and "tokenizers c modelName = Some tok"
    and "pairs \<noteq> []" and "accepts mdl tok (map fst pairs) (map snd pairs)"
  shows "\<exists>feats lg cols.
           tok (map fst pairs) (map snd pairs) = Inr feats \<and> forward mdl feats = Inr lg
           \<and> dims lg = [length pairs, cols] \<and> length (tolist lg) = length pairs
           \<and> (\<forall>row \<in> set (tolist lg). length row = cols)
           \<and> (cols = 1 \<or> (1 < cols \<and> positiveClassIndex (id2label mdl) < cols))
           \<and> getScores c modelName pairs
               = Inr (map (\<lambda>row. to_result (row_score cols (positiveClassIndex (id2label mdl)) row))
                        (tolist lg))"
proof -
  from assms(4) obtain feats lg cols where
    t: "tok (map fst pairs) (map snd pairs) = Inr feats" and f: "forward mdl feats = Inr lg"
    and d: "dims lg = [length pairs, cols]" and l: "length (tolist lg) = length pairs"
    and r: "\<forall>row \<in> set (tolist lg). length row = cols"
    and cs: "cols = 1 \<or> (1 < cols \<and> positiveClassIndex (id2label mdl) < cols)"
    by (auto simp: accepts_def)
  have "cols \<noteq> 1 \<Longrightarrow> [] \<notin> set (tolist lg)" using r cs by auto
  then have n: "normalize (positiveClassIndex (id2label mdl)) lg
             = Inr (map (row_score cols (positiveClassIndex (id2label mdl))) (tolist lg))"
    using normalize_each_row [OF d, of "positiveClassIndex (id2label mdl)"] by auto
  have "getScores c modelName pairs
        = Inr (map (\<lambda>row. to_result (row_score cols (positiveClassIndex (id2label mdl)) row))
                 (tolist lg))"
    using assms(1-3) t f n by (simp add: getScores_def comp_def)
  with t f d l r cs show ?thesis by blast
qed

lemma getScores_accepted_returns:
  assumes "models c modelName = Some mdl" and "tokenizers c modelName = Some tok"
    and "pairs \<noteq> []" and "accepts mdl tok (map fst pairs) (map snd pairs)"
  shows "\<exists>rs. getScores c modelName pairs = Inr rs"
  using getScores_accepted [OF assms] by blast

lemma set_insert_sorted [simp]: "set (insert_sorted cmp x ys) = insert x (set ys)"
  by (induction ys) auto

lemma length_insert_sorted [simp]: "length (insert_sorted cmp x ys) = Suc (length ys)"
  by (induction ys) auto

lemma set_Array_sort [simp]: "set (Array_sort cmp xs) = set xs"
  by (induction xs) (simp_all add: Array_sort_def)

lemma length_Array_sort [simp]: "length (Array_sort cmp xs) = length xs"
  by (induction xs) (simp_all add: Array_sort_def)

lemma Array_sort_Cons: "Array_sort cmp (x # xs) = insert_sorted cmp x (Array_sort cmp xs)"
  by (simp add: Array_sort_def)



lemma distinct_insert_sorted [simp]:
  "distinct (insert_sorted cmp x ys) = (x \<notin> set ys \<and> distinct ys)"
  by (induction ys) auto

lemma distinct_Array_sort [simp]: "distinct (Array_sort cmp xs) = distinct xs"
proof (induction xs)
  case Nil
  then show ?case by (simp add: Array_sort_def)
next
  case (Cons x xs)
  then show ?case by (simp add: Array_sort_Cons)
qed


lemma chunk_result_own:
  "spread_document (doc_at documents j) k = Some v \<Longrightarrow> chunk_result documents j s k = Some v"
  by (simp add: chunk_result_def map_add_def)

lemma chunk_result_score:
  "chunk_result documents j s ''_rerank_score''
   = (case spread_document (doc_at documents j) ''_rerank_score'' of None \<Rightarrow> Some s | Some v \<Rightarrow> Some v)"
  by (simp add: chunk_result_def map_add_def split: option.splits)

lemma chunk_result_corpus_id:
  "chunk_result documents j s ''_rerank_corpus_id''
   = (case spread_document (doc_at documents j) ''_rerank_corpus_id'' of
        None \<Rightarrow> Some (JNum (real j)) | Some v \<Rightarrow> Some v)"
  by (simp add: chunk_result_def map_add_def split: option.splits)















text \<open>The definitions that evaluate a call of \<open>rerank\<close> on the sample backends.\<close>

lemmas rerank_eval =
  rerank_def rerank_loop.simps slice_def getScores_def loaded_def pad_tokenizer_def
  single_logit_model_def normalize_def sigmoid_row_def sigmoid_0 to_result_def
  topK_of_def batchSize_of_def enumerate_eq_zip Array_sort_def SortCompare_def
  by_score_descending_def js_minus_def get_prop_def chunk_result_def doc_at_def
  spread_document_def doc_text_def toFixed_throws_def

text \<open>
  C1, at documents that bring their own \<open>_rerank_score\<close>. The result object is built
  with the computed score first and the document spread after it, so the caller's value
  takes the place of the computed score, against the comment on the object (the
  underscores are to prevent collisions) and the documented \<open>_rerank_score\<close>, the
  relevance score. The sort compares the caller's values. With the value \<open>NaN\<close> on the
  first of two documents, the scores of the result are \<open>NaN\<close> and then 0.5: the sequence
  is not non-increasing. With a string as the value on a single document, \<open>rerank\<close>
  returns no sequence at all: \<open>toFixed\<close> throws on the string.
\<close>

theorem rerank_own_score_breaks_order:
  "exposed_scores
     (rerank (\<lambda>_. None) (loaded ''m'' single_logit_model pad_tokenizer) ''m'' ''q''
        [DocObject [''text'' \<mapsto> JStr ''a'', ''_rerank_score'' \<mapsto> JNaN], DocString ''b'']
        \<lparr>topK = Some 2, batchSize = Some 128\<rparr>)
   = Some (Inr [JNaN, JNum (1 / 2)])
   \<and> \<not> non_increasing [JNaN, JNum (1 / 2)]
   \<and> rerank (\<lambda>_. None) (loaded ''m'' single_logit_model pad_tokenizer) ''m'' ''q''
        [DocObject [''text'' \<mapsto> JStr ''a'', ''_rerank_score'' \<mapsto> JStr ''high'']]
        \<lparr>topK = Some 1, batchSize = Some 128\<rparr>
     = Some (Inl ToFixedOfNonNumber)"
  by (simp add: rerank_eval exposed_scores_def exposed_score_def non_increasing_def)

text \<open>
  C5, at documents that bring their own \<open>_rerank_corpus_id\<close>. The spread puts the
  caller's value in place of the index, against the comment on the object and the
  documented \<open>_rerank_corpus_id\<close>, the original index position in the input array. Here
  both items of the result carry the corpus id 7, which is twice the same and not an
  index of the two documents.
\<close>

theorem rerank_own_corpus_id_repeats:
  "exposed_corpus_ids
     (rerank (\<lambda>_. None) (loaded ''m'' single_logit_model pad_tokenizer) ''m'' ''q''
        [DocObject [''text'' \<mapsto> JStr ''a'', ''_rerank_corpus_id'' \<mapsto> JNum 7],
         DocObject [''text'' \<mapsto> JStr ''b'', ''_rerank_corpus_id'' \<mapsto> JNum 7]]
        \<lparr>topK = Some 2, batchSize = Some 128\<rparr>)
   = Some (Inr [JNum 7, JNum 7])
   \<and> \<not> distinct [JNum 7, JNum 7]
   \<and> JNum 7 \<notin> set (map (\<lambda>i. JNum (real i)) [0 ..< 2])"
  by (simp add: rerank_eval exposed_corpus_ids_def exposed_corpus_id_def upt_rec)

lemma rerank_loop_items_aux:
  assumes a: "rerank_loop c modelName query documents b i acc = Some y"
  shows "\<forall>res. y = Inr res \<longrightarrow>
          (\<forall>item \<in> set res. item \<in> set acc \<or> (\<exists>j s. item = chunk_result documents j s))"
proof -
  let ?P = "\<lambda>(c::cache) (m::string) (q::string) d (b::nat) (i::nat) acc y.
              \<forall>res. y = Inr res \<longrightarrow>
                (\<forall>item \<in> set res. item \<in> set acc \<or> (\<exists>j s. item = chunk_result d j s))"
  note r = rerank_loop.raw_induct [where P = ?P, OF _ a]
  show ?thesis
  proof (rule r)
    fix f c m q d bs i acc y
    assume IH: "\<And>c m q d bs i acc y. f c m q d bs i acc = Some y \<Longrightarrow>
                  \<forall>res. y = Inr res \<longrightarrow>
                    (\<forall>item \<in> set res. item \<in> set acc \<or> (\<exists>j s. item = chunk_result d j s))"
      and step: "(if i < length d
                  then let chunkStart = i;
                           chunkEnd = min (i + bs) (length d);
                           chunk = slice d chunkStart chunkEnd;
                           queryDocPairs = map (\<lambda>doc. (q, doc_text doc)) chunk
                       in case getScores c m queryDocPairs of
                            Inl e \<Rightarrow> Some (Inl e)
                          | Inr chunkScores \<Rightarrow>
                              f c m q d bs (i + bs)
                                (acc @ map (\<lambda>(j, result). chunk_result d (chunkStart + j) (score result))
                                         (enumerate 0 chunkScores))
                  else Some (Inr acc)) = Some y"
    show "\<forall>res. y = Inr res \<longrightarrow>
            (\<forall>item \<in> set res. item \<in> set acc \<or> (\<exists>j s. item = chunk_result d j s))"
    proof (cases "i < length d")
      case False
      with step show ?thesis by auto
    next
      case True
      let ?pairs = "map (\<lambda>doc. (q, doc_text doc)) (slice d i (min (i + bs) (length d)))"
      show ?thesis
      proof (cases "getScores c m ?pairs")
        case (Inl e)
        with True step show ?thesis by (auto simp: Let_def)
      next
        case (Inr chunkScores)
        let ?new = "map (\<lambda>(j, result). chunk_result d (i + j) (score result))
                     (enumerate 0 chunkScores)"
        from True Inr step have "f c m q d bs (i + bs) (acc @ ?new) = Some y"
          by (simp add: Let_def)
        from IH [OF this]
        have "\<forall>res. y = Inr res \<longrightarrow>
                (\<forall>item \<in> set res. item \<in> set (acc @ ?new) \<or> (\<exists>j s. item = chunk_result d j s))" .
        moreover have "\<exists>j s. item = chunk_result d j s" if "item \<in> set ?new" for item
          using that by auto
        ultimately show ?thesis by (simp only: set_append Un_iff) blast
      qed
    qed
  qed
qed

lemma rerank_loop_items:
  assumes "rerank_loop c modelName query documents b i acc = Some (Inr res)"
  shows "\<forall>item \<in> set res. item \<in> set acc \<or> (\<exists>j s. item = chunk_result documents j s)"
  using rerank_loop_items_aux [OF assms] by blast

text \<open>
  C10. Every item that \<open>rerank\<close> returns is the object built for some index and some
  computed score, and where the document at that index is a record with a property
  \<open>_rerank_corpus_id\<close> or \<open>_rerank_score\<close> of its own, the item carries the caller's value
  of that property, not the computed one.
\<close>

theorem rerank_own_fields_win:
  assumes "rerank s2n c modelName query documents opts = Some (Inr out)"
    and "item \<in> set out"
  shows "\<exists>j s. item = chunk_result documents j s
           \<and> (\<forall>obj v. doc_at documents j = Some (DocObject obj) \<longrightarrow>
                  (obj ''_rerank_corpus_id'' = Some v \<longrightarrow> exposed_corpus_id item = v)
                  \<and> (obj ''_rerank_score'' = Some v \<longrightarrow> exposed_score item = v))"
proof -
  from assms(1) have ne: "documents \<noteq> [] \<or> out = []"
    by (auto simp: rerank_def split: if_splits)
  with assms(2) have "documents \<noteq> []" by auto
  with assms(1) obtain allResults where
    l: "rerank_loop c modelName query documents (batchSize_of opts) 0 [] = Some (Inr allResults)"
    and o: "out = take (topK_of opts) (Array_sort (by_score_descending s2n) allResults)"
    by (auto simp: rerank_def Let_def split: option.splits sum.splits list.splits if_splits)
  from assms(2) o have "item \<in> set allResults" by (auto dest: in_set_takeD)
  with rerank_loop_items [OF l] obtain j s where item: "item = chunk_result documents j s"
    by auto
  have "exposed_corpus_id item = v"
    if "doc_at documents j = Some (DocObject obj)" "obj ''_rerank_corpus_id'' = Some v" for obj v
    using that by (simp add: item exposed_corpus_id_def get_prop_def chunk_result_corpus_id
        spread_document_def)
  moreover have "exposed_score item = v"
    if "doc_at documents j = Some (DocObject obj)" "obj ''_rerank_score'' = Some v" for obj v
    using that by (simp add: item exposed_score_def get_prop_def chunk_result_score
        spread_document_def)
  ultimately show ?thesis using item by blast
qed

text \<open>C10 at a record that was reranked before: the result carries its old id and score.\<close>

theorem rerank_own_fields_win_witness:
  "\<exists>j s. chunk_result [DocObject [''text'' \<mapsto> JStr ''a'', ''_rerank_corpus_id'' \<mapsto> JNum 7,
                                   ''_rerank_score'' \<mapsto> JNum 3]] 0 (JNum (1 / 2))
           = chunk_result [DocObject [''text'' \<mapsto> JStr ''a'', ''_rerank_corpus_id'' \<mapsto> JNum 7,
                                   ''_rerank_score'' \<mapsto> JNum 3]] j s
         \<and> exposed_corpus_id (chunk_result [DocObject [''text'' \<mapsto> JStr ''a'',
               ''_rerank_corpus_id'' \<mapsto> JNum 7, ''_rerank_score'' \<mapsto> JNum 3]] j s) = JNum 7
         \<and> exposed_score (chunk_result [DocObject [''text'' \<mapsto> JStr ''a'',
               ''_rerank_corpus_id'' \<mapsto> JNum 7, ''_rerank_score'' \<mapsto> JNum 3]] j s) = JNum 3"
proof -
  let ?docs = "[DocObject [''text'' \<mapsto> JStr ''a'', ''_rerank_corpus_id'' \<mapsto> JNum 7,
                          ''_rerank_score'' \<mapsto> JNum 3]]"
  let ?item = "chunk_result ?docs 0 (JNum (1 / 2))"
  have r: "rerank (\<lambda>_. None) (loaded ''m'' single_logit_model pad_tokenizer) ''m'' ''q'' ?docs
             \<lparr>topK = None, batchSize = None\<rparr> = Some (Inr [?item])"
    by (simp add: rerank_eval)
  from rerank_own_fields_win [OF r, of ?item] obtain j s where
    a: "?item = chunk_result ?docs j s"
    and b: "\<forall>obj v. doc_at ?docs j = Some (DocObject obj) \<longrightarrow>
                  (obj ''_rerank_corpus_id'' = Some v \<longrightarrow> exposed_corpus_id ?item = v)
                  \<and> (obj ''_rerank_score'' = Some v \<longrightarrow> exposed_score ?item = v)"
    by auto
  have "exposed_corpus_id ?item = JNum 7" "exposed_score ?item = JNum 3"
    by (simp_all add: exposed_corpus_id_def exposed_score_def get_prop_def chunk_result_def
        doc_at_def spread_document_def)
  with a show ?thesis by metis
qed

section \<open>Stability of the sort\<close>






section \<open>Documents without text\<close>

lemma rerank_loop_throws:
  assumes b: "0 < b"
    and bad: "\<exists>j. i \<le> j \<and> j < length documents \<and> bad (documents ! j)"
    and F: "\<And>chunk. \<exists>d \<in> set chunk. bad d \<Longrightarrow>
               getScores c modelName (pairs_of query chunk) = Inl e"
    and G: "\<And>chunk. chunk \<noteq> [] \<Longrightarrow> set chunk \<subseteq> set documents \<Longrightarrow> \<forall>d \<in> set chunk. \<not> bad d \<Longrightarrow>
               \<exists>rs. getScores c modelName (pairs_of query chunk) = Inr rs"
  shows "rerank_loop c modelName query documents b i acc = Some (Inl e)"
  using bad
proof (induction "length documents - i" arbitrary: i acc rule: less_induct)
  case less
  from less.prems obtain j where j: "i \<le> j" "j < length documents" "bad (documents ! j)"
    by blast
  then have lt: "i < length documents" by simp
  let ?chunk = "take b (drop i documents)"
  show ?case
  proof (cases "\<exists>d \<in> set ?chunk. bad d")
    case True
    from F [OF True] lt show ?thesis
      by (subst rerank_loop.simps) (simp add: slice_chunk Let_def flip: pairs_of_def)
  next
    case False
    from lt b have ne: "?chunk \<noteq> []" by simp
    have sub: "set ?chunk \<subseteq> set documents"
      by (meson set_drop_subset set_take_subset subset_trans)
    from G [OF ne sub] False obtain rs where
      rs: "getScores c modelName (pairs_of query ?chunk) = Inr rs" by blast
    have "i + b \<le> j"
    proof (rule ccontr)
      assume "\<not> i + b \<le> j"
      with j have k: "j - i < b" "j - i < length documents - i" by linarith+
      then have "j - i < length ?chunk" "?chunk ! (j - i) = documents ! j" using j(1) by simp_all
      then have "documents ! j \<in> set ?chunk" by (metis nth_mem)
      with False j(3) show False by blast
    qed
    with j have next_bad: "\<exists>j. i + b \<le> j \<and> j < length documents \<and> bad (documents ! j)" by blast
    from lt b have "length documents - (i + b) < length documents - i" by simp
    from less.hyps [OF this next_bad] lt rs show ?thesis
      by (subst rerank_loop.simps) (simp add: slice_chunk Let_def flip: pairs_of_def)
  qed
qed

lemma getScores_tokenizer_throws:
  assumes "models c modelName = Some mdl" and "tokenizers c modelName = Some tok"
    and "pairs \<noteq> []" and "tok (map fst pairs) (map snd pairs) = Inl e"
  shows "getScores c modelName pairs = Inl e"
  using assms by (simp add: getScores_def)

text \<open>
  C9, as stated, fails: \<open>rerank\<close> has no check of its own. With a tokenizer that takes any
  passage, a record without a \<open>text\<close> property is scored like any other document.
\<close>

theorem rerank_no_text_counterexample:
  "doc_text (DocObject [''id'' \<mapsto> JStr ''doc1'']) = JUndefined
   \<and> exposed_scores
       (rerank (\<lambda>_. None) (loaded ''m'' single_logit_model pad_tokenizer) ''m'' ''q''
          [DocObject [''id'' \<mapsto> JStr ''doc1'']] \<lparr>topK = None, batchSize = None\<rparr>)
     = Some (Inr [JNum (1 / 2)])"
  by (simp add: rerank_eval exposed_scores_def exposed_score_def)

text \<open>
  C9, amended. \<open>rerank\<close> hands the \<open>text\<close> of a record to the tokenizer as it is,
  \<open>undefined\<close> when the record has none. With the model loaded and a batch size of at
  least 1: when the tokenizer throws \<open>e\<close> on every batch that holds a passage that is
  not a string, and the backend returns well-shaped logits on batches of strings, and
  some document has no string as its text, then \<open>rerank\<close> throws \<open>e\<close> to its caller and
  returns no result.
\<close>

theorem rerank_propagates_rejection:
  assumes "models c modelName = Some mdl" and "tokenizers c modelName = Some tok"
    and "0 < batchSize_of opts"
    and "rejects_non_strings tok e" and "accepts_strings mdl tok"
    and "\<exists>d \<in> set documents. \<not> is_string (doc_text d)"
  shows "rerank s2n c modelName query documents opts = Some (Inl e)"
proof -
  define bad where "bad = (\<lambda>d. \<not> is_string (doc_text d))"
  from assms(6) obtain d where d: "d \<in> set documents" "bad d"
    unfolding bad_def by blast
  then have ne: "documents \<noteq> []" by auto
  from d(1) obtain j where "j < length documents" "documents ! j = d"
    unfolding in_set_conv_nth by blast
  with d(2) have bad: "\<exists>j. 0 \<le> j \<and> j < length documents \<and> bad (documents ! j)"
    by blast
  have F: "getScores c modelName (pairs_of query chunk) = Inl e" if "\<exists>d \<in> set chunk. bad d" for chunk
  proof (rule getScores_tokenizer_throws [OF assms(1,2)])
    from that obtain d where "d \<in> set chunk" "\<not> is_string (doc_text d)"
      unfolding bad_def by blast
    then have "doc_text d \<in> set (map snd (pairs_of query chunk))"
      by (simp add: pairs_of_def comp_def)
    with \<open>\<not> is_string (doc_text d)\<close>
    have "\<exists>p \<in> set (map snd (pairs_of query chunk)). \<not> is_string p" by blast
    with assms(4) show "tok (map fst (pairs_of query chunk)) (map snd (pairs_of query chunk)) = Inl e"
      unfolding rejects_non_strings_def by blast
    from \<open>d \<in> set chunk\<close> show "pairs_of query chunk \<noteq> []" by (auto simp: pairs_of_def)
  qed
  have G: "\<exists>rs. getScores c modelName (pairs_of query chunk) = Inr rs"
    if "chunk \<noteq> []" "set chunk \<subseteq> set documents" "\<forall>d \<in> set chunk. \<not> bad d" for chunk
  proof -
    from that(1) have p: "pairs_of query chunk \<noteq> []" by (simp add: pairs_of_def)
    have "\<forall>p \<in> set (map snd (pairs_of query chunk)). is_string p"
      using that(3) by (simp add: pairs_of_def comp_def bad_def)
    moreover have "map fst (pairs_of query chunk) \<noteq> []"
      "length (map snd (pairs_of query chunk)) = length (map fst (pairs_of query chunk))"
      using that(1) by (simp_all add: pairs_of_def)
    ultimately
    have "accepts mdl tok (map fst (pairs_of query chunk)) (map snd (pairs_of query chunk))"
      using assms(5) unfolding accepts_strings_def by blast
    from getScores_accepted_returns [OF assms(1,2) p this] show ?thesis .
  qed
  have "rerank_loop c modelName query documents (batchSize_of opts) 0 [] = Some (Inl e)"
    by (rule rerank_loop_throws [of "batchSize_of opts" 0 documents bad c modelName query e,
          OF assms(3) bad F G])
  with ne show ?thesis by (simp add: rerank_def)
qed

lemma strict_tokenizer_rejects:
  "rejects_non_strings strict_tokenizer (BackendError ''text must be a string'')"
  by (auto simp: rejects_non_strings_def strict_tokenizer_def)

lemma strict_tokenizer_accepts: "accepts_strings single_logit_model strict_tokenizer"
proof -
  have "accepts single_logit_model strict_tokenizer queries passages"
    if "\<forall>p \<in> set passages. is_string p" for queries passages
    unfolding accepts_def
    using that
    by (intro exI [of _ "map (\<lambda>_. []) queries"]
              exI [of _ "\<lparr>dims = [length queries, 1], tolist = map (\<lambda>_. [0]) queries\<rparr>"]
              exI [of _ 1])
       (auto simp: strict_tokenizer_def single_logit_model_def)
  then show ?thesis by (simp add: accepts_strings_def)
qed

text \<open>
  The amended C9 at a string and a record without text, batch size 1: the first batch
  is scored, the second is rejected, and the call throws.
\<close>

theorem rerank_propagates_rejection_witness:
  "rerank (\<lambda>_. None) (loaded ''m'' single_logit_model strict_tokenizer) ''m'' ''q''
     [DocString ''a'', DocObject [''id'' \<mapsto> JStr ''doc2'']] \<lparr>topK = Some 2, batchSize = Some 1\<rparr>
   = Some (Inl (BackendError ''text must be a string''))"
proof -
  have d: "\<exists>d \<in> set [DocString ''a'', DocObject [''id'' \<mapsto> JStr ''doc2'']]. \<not> is_string (doc_text d)"
    by (simp add: doc_text_def get_prop_def is_string_def)
  show ?thesis
    using rerank_propagates_rejection [of "loaded ''m'' single_logit_model strict_tokenizer" "''m''"
        single_logit_model strict_tokenizer "\<lparr>topK = Some 2, batchSize = Some 1\<rparr>"
        "BackendError ''text must be a string''"
        "[DocString ''a'', DocObject [''id'' \<mapsto> JStr ''doc2'']]" "\<lambda>_. None" "''q''",
        OF _ _ _ strict_tokenizer_rejects strict_tokenizer_accepts d]
    by (simp add: loaded_def batchSize_of_def)
qed

section \<open>Batching\<close>

lemma getScores_each_pair:
  assumes "models c modelName = Some mdl" and "tokenizers c modelName = Some tok"
    and "scores_each_pair mdl tok h cols" and "pairs \<noteq> []"
  shows "getScores c modelName pairs =
           (if cols \<noteq> 1 \<and> (\<exists>p \<in> set pairs. h p = []) then Inl ReduceOfEmptyArray
            else Inr (map (\<lambda>p. to_result (row_score cols (positiveClassIndex (id2label mdl)) (h p))) pairs))"
proof -
  have "map fst pairs \<noteq> []" "length (map snd pairs) = length (map fst pairs)"
    using assms(4) by simp_all
  with assms(3) obtain feats where
    t: "tok (map fst pairs) (map snd pairs) = Inr feats"
    and f: "forward mdl feats
            = Inr \<lparr>dims = [length (map fst pairs), cols],
                   tolist = map h (zip (map fst pairs) (map snd pairs))\<rparr>"
    unfolding scores_each_pair_def by blast
  let ?lg = "\<lparr>dims = [length pairs, cols], tolist = map h pairs\<rparr>"
  let ?p = "positiveClassIndex (id2label mdl)"
  from f have f': "forward mdl feats = Inr ?lg" by (simp add: zip_map_fst_snd)
  have g: "getScores c modelName pairs
           = (case normalize ?p ?lg of Inl e \<Rightarrow> Inl e | Inr scores \<Rightarrow> Inr (map to_result scores))"
    using assms(1,2,4) t f' by (simp add: getScores_def)
  have e: "([] \<in> set (map h pairs)) = (\<exists>p \<in> set pairs. h p = [])" by force
  have n: "normalize ?p ?lg =
           (if cols \<noteq> 1 \<and> (\<exists>p \<in> set pairs. h p = []) then Inl ReduceOfEmptyArray
            else Inr (map (row_score cols ?p) (map h pairs)))"
    using normalize_each_row [of ?lg "length pairs" cols ?p] by (simp only: e logits.simps)
  show ?thesis
  proof (cases "cols \<noteq> 1 \<and> (\<exists>p \<in> set pairs. h p = [])")
    case True
    then show ?thesis unfolding g n by simp
  next
    case False
    then show ?thesis unfolding g n by (simp add: comp_def)
  qed
qed

lemma list_all2_eq_map: "list_all2 (\<lambda>x y. y = f x) xs ys \<Longrightarrow> ys = map f xs"
  by (induction rule: list_all2_induct) simp_all

lemma rerank_loop_each_pair:
  assumes "models c modelName = Some mdl" and "tokenizers c modelName = Some tok"
    and "scores_each_pair mdl tok h cols" and "0 < b"
  shows "rerank_loop c modelName query documents b 0 [] =
           (if cols \<noteq> 1 \<and> (\<exists>d \<in> set documents. h (query, doc_text d) = [])
            then Some (Inl ReduceOfEmptyArray)
            else Some (Inr (built documents 0
                   (map (\<lambda>p. row_score cols (positiveClassIndex (id2label mdl)) (h p))
                      (pairs_of query documents)))))"
proof (cases "cols \<noteq> 1 \<and> (\<exists>d \<in> set documents. h (query, doc_text d) = [])")
  case True
  define bad where "bad = (\<lambda>d. h (query, doc_text d) = [])"
  from True obtain d where "d \<in> set documents" "bad d" unfolding bad_def by blast
  then obtain j where "j < length documents" "bad (documents ! j)"
    unfolding in_set_conv_nth by blast
  then have bad: "\<exists>j. 0 \<le> j \<and> j < length documents \<and> bad (documents ! j)" by blast
  have F: "getScores c modelName (pairs_of query chunk) = Inl ReduceOfEmptyArray"
    if "\<exists>d \<in> set chunk. bad d" for chunk
  proof -
    from that have ne: "pairs_of query chunk \<noteq> []" by (auto simp: pairs_of_def)
    from that have "\<exists>p \<in> set (pairs_of query chunk). h p = []"
      unfolding bad_def pairs_of_def by auto
    with True show ?thesis
      by (simp add: getScores_each_pair [OF assms(1-3) ne])
  qed
  have G: "\<exists>rs. getScores c modelName (pairs_of query chunk) = Inr rs"
    if "chunk \<noteq> []" "set chunk \<subseteq> set documents" "\<forall>d \<in> set chunk. \<not> bad d" for chunk
  proof -
    from that(1) have ne: "pairs_of query chunk \<noteq> []" by (simp add: pairs_of_def)
    from that(3) have "\<not> (\<exists>p \<in> set (pairs_of query chunk). h p = [])"
      unfolding bad_def pairs_of_def by auto
    then show ?thesis by (simp add: getScores_each_pair [OF assms(1-3) ne])
  qed
  have "rerank_loop c modelName query documents b 0 [] = Some (Inl ReduceOfEmptyArray)"
    by (rule rerank_loop_throws [of b 0 documents bad c modelName query ReduceOfEmptyArray,
          OF assms(4) bad F G])
  with True show ?thesis by simp
next
  case False
  let ?f = "\<lambda>p. row_score cols (positiveClassIndex (id2label mdl)) (h p)"
  have G: "\<exists>rs. getScores c modelName (pairs_of query chunk) = Inr rs
              \<and> list_all2 (\<lambda>p r. score r = ?f p) (pairs_of query chunk) rs"
    if "chunk \<noteq> []" "set chunk \<subseteq> set documents" for chunk
  proof -
    from that(1) have ne: "pairs_of query chunk \<noteq> []" by (simp add: pairs_of_def)
    from that(2) False have "\<not> (cols \<noteq> 1 \<and> (\<exists>p \<in> set (pairs_of query chunk). h p = []))"
      unfolding pairs_of_def by auto
    then have "getScores c modelName (pairs_of query chunk)
               = Inr (map (\<lambda>p. to_result (?f p)) (pairs_of query chunk))"
      by (simp add: getScores_each_pair [OF assms(1-3) ne])
    moreover have "list_all2 (\<lambda>p r. score r = ?f p) (pairs_of query chunk)
                     (map (\<lambda>p. to_result (?f p)) (pairs_of query chunk))"
      by (simp add: list_all2_conv_all_nth to_result_def)
    ultimately show ?thesis by blast
  qed
  from rerank_loop_returns [of b documents c modelName query "\<lambda>p s. s = ?f p" 0 "[]",
      OF assms(4) G]
  obtain ss where ss: "list_all2 (\<lambda>p s. s = ?f p) (pairs_of query documents) ss"
    and l: "rerank_loop c modelName query documents b 0 [] = Some (Inr (built documents 0 ss))"
    by auto
  from list_all2_eq_map [OF ss] l False show ?thesis by simp
qed

lemma padding_contract: "backend_contract padding_model padding_tokenizer"
proof -
  have "accepts padding_model padding_tokenizer queries passages"
    if "length passages = length queries" for queries passages
    unfolding accepts_def padding_tokenizer_def Let_def
    using that
    by (intro exI [of _ "map (\<lambda>p. replicate (token_count p) 1
                              @ replicate (foldr max (map token_count passages) 0 - token_count p) 0)
                          passages"]
              exI [of _ "\<lparr>dims = [length queries, 1],
                          tolist = map (\<lambda>p. [real (count_list
                              (replicate (token_count p) 1
                               @ replicate (foldr max (map token_count passages) 0 - token_count p) 0)
                              (0::int))]) passages\<rparr>"]
              exI [of _ 1])
       (auto simp: padding_model_def comp_def)
  then show ?thesis
    by (auto simp: backend_contract_def padding_tokenizer_def padding_model_def Let_def)
qed

lemma sigmoid_2: "\<exists>s. sigmoid 2 = JNum s \<and> 1 / 2 < s"
proof -
  have "inverse (8::real) < inverse (exp 2)"
    using exp_2_bounds by (intro less_imp_inverse_less) auto
  then have lo: "1 / 8 < exp (- 2 :: real)" by (simp add: exp_minus)
  have u: "underflow_bound < 1 / 8" by (simp add: underflow_bound_def)
  from lo u have a: "underflow_bound < exp (- 2 :: real)" by linarith
  have lt: "exp (- 2 :: real) < 1" by simp
  with overflow_bound_greater_9 have b: "1 + exp (- 2 :: real) < overflow_bound" by linarith
  have "1 / 2 < 1 / (1 + exp (- 2 :: real))"
    using lt by (simp add: field_simps add_pos_pos)
  with sigmoid_in_range [OF a b] show ?thesis by blast
qed

text \<open>
  C3, as stated, fails on a deterministic backend whose logits depend on the batch. The
  tokenizer is called with \<open>padding: true\<close> on each batch, so a row is padded to the
  longest passage of its batch; here the logit is the number of padding tokens. The
  backend returns one well-shaped row for each pair. For the documents \<open>bbb\<close> and \<open>a\<close>
  and \<open>topK = 1\<close>: with batches of 1 no row is padded, the scores tie, and the result is
  the document 0; with one batch of 2 the row of \<open>a\<close> is padded, its score is higher, and
  the result is the document 1.
\<close>

theorem rerank_batch_size_counterexample:
  "backend_contract padding_model padding_tokenizer
   \<and> exposed_corpus_ids
       (rerank (\<lambda>_. None) (loaded ''m'' padding_model padding_tokenizer) ''m'' ''q''
          [DocString ''bbb'', DocString ''a''] \<lparr>topK = Some 1, batchSize = Some 1\<rparr>)
     = Some (Inr [JNum 0])
   \<and> exposed_corpus_ids
       (rerank (\<lambda>_. None) (loaded ''m'' padding_model padding_tokenizer) ''m'' ''q''
          [DocString ''bbb'', DocString ''a''] \<lparr>topK = Some 1, batchSize = Some 2\<rparr>)
     = Some (Inr [JNum 1])"
proof -
  from sigmoid_2 obtain s where s: "sigmoid 2 = JNum s" "1 / 2 < s" by blast
  note eval = rerank_def rerank_loop.simps slice_def getScores_def loaded_def
    padding_tokenizer_def padding_model_def token_count_def normalize_def sigmoid_row_def
    sigmoid_0 to_result_def topK_of_def batchSize_of_def enumerate_eq_zip Array_sort_def
    SortCompare_def by_score_descending_def js_minus_def get_prop_def chunk_result_def
    doc_at_def spread_document_def doc_text_def toFixed_throws_def exposed_corpus_ids_def
    exposed_corpus_id_def Let_def
  have a: "exposed_corpus_ids
       (rerank (\<lambda>_. None) (loaded ''m'' padding_model padding_tokenizer) ''m'' ''q''
          [DocString ''bbb'', DocString ''a''] \<lparr>topK = Some 1, batchSize = Some 1\<rparr>)
     = Some (Inr [JNum 0])"
    by (simp add: eval)
  have b: "exposed_corpus_ids
       (rerank (\<lambda>_. None) (loaded ''m'' padding_model padding_tokenizer) ''m'' ''q''
          [DocString ''bbb'', DocString ''a''] \<lparr>topK = Some 1, batchSize = Some 2\<rparr>)
     = Some (Inr [JNum 1])"
    using s(2) by (simp add: eval s(1))
  show ?thesis using padding_contract a b by simp
qed

text \<open>
  C3, amended. A backend that scores each pair by itself gives each pair its row of
  logits, a function \<open>h\<close> of the pair alone, in tensors of one width, whatever the batch
  the pair is in. With the model loaded and such a backend, any two batch sizes of at
  least 1 give the same merged results before the sort (the same scores at the same
  corpus ids) and the same outcome of \<open>rerank\<close>, and the call ends.
\<close>

theorem rerank_batch_size_irrelevant:
  assumes "models c modelName = Some mdl" and "tokenizers c modelName = Some tok"
    and "scores_each_pair mdl tok h cols" and "0 < b" and "0 < b'"
  shows "rerank_loop c modelName query documents b 0 []
           = rerank_loop c modelName query documents b' 0 []
       \<and> rerank s2n c modelName query documents \<lparr>topK = k, batchSize = Some b\<rparr>
           = rerank s2n c modelName query documents \<lparr>topK = k, batchSize = Some b'\<rparr>
       \<and> rerank s2n c modelName query documents \<lparr>topK = k, batchSize = Some b\<rparr> \<noteq> None"
proof -
  have l: "rerank_loop c modelName query documents b 0 []
           = rerank_loop c modelName query documents b' 0 []"
    by (simp only: rerank_loop_each_pair [OF assms(1-3) assms(4)]
        rerank_loop_each_pair [OF assms(1-3) assms(5)])
  have n: "rerank_loop c modelName query documents b 0 [] \<noteq> None"
    by (simp add: rerank_loop_each_pair [OF assms(1-3) assms(4)])
  have r: "rerank s2n c modelName query documents \<lparr>topK = k, batchSize = Some b\<rparr>
           = rerank s2n c modelName query documents \<lparr>topK = k, batchSize = Some b'\<rparr>"
  proof -
    have tk: "topK_of \<lparr>topK = k, batchSize = Some b\<rparr> = topK_of \<lparr>topK = k, batchSize = Some b'\<rparr>"
      by (simp add: topK_of_def)
    have bs: "batchSize_of \<lparr>topK = k, batchSize = Some b\<rparr> = b"
      "batchSize_of \<lparr>topK = k, batchSize = Some b'\<rparr> = b'"
      by (simp_all add: batchSize_of_def)
    show ?thesis unfolding rerank_def bs l tk by (rule refl)
  qed
  have "rerank s2n c modelName query documents \<lparr>topK = k, batchSize = Some b\<rparr> \<noteq> None"
    using n
    by (auto simp: rerank_def batchSize_of_def Let_def
        split: option.splits sum.splits list.splits if_splits)
  with l r show ?thesis by blast
qed

lemma single_logit_each_pair: "scores_each_pair single_logit_model pad_tokenizer (\<lambda>_. [0]) 1"
  unfolding scores_each_pair_def
  by (auto simp: pad_tokenizer_def single_logit_model_def map_replicate_const)

text \<open>The amended C3 at three documents: batches of 1 and one batch of 3.\<close>

theorem rerank_batch_size_irrelevant_witness:
  "rerank_loop sample_cache ''m'' ''q'' three_documents 1 0 []
     = rerank_loop sample_cache ''m'' ''q'' three_documents 3 0 []
   \<and> rerank (\<lambda>_. None) sample_cache ''m'' ''q'' three_documents \<lparr>topK = Some 2, batchSize = Some 1\<rparr>
     = rerank (\<lambda>_. None) sample_cache ''m'' ''q'' three_documents \<lparr>topK = Some 2, batchSize = Some 3\<rparr>
   \<and> rerank (\<lambda>_. None) sample_cache ''m'' ''q'' three_documents \<lparr>topK = Some 2, batchSize = Some 1\<rparr>
     \<noteq> None"
proof -
  have m: "models sample_cache ''m'' = Some single_logit_model"
    and t: "tokenizers sample_cache ''m'' = Some pad_tokenizer"
    by (simp_all add: sample_cache_def loaded_def)
  show ?thesis
    by (rule rerank_batch_size_irrelevant [OF m t single_logit_each_pair]) simp_all
qed

section \<open>Concurrent initialization\<close>

lemma consistent_start: "consistent start"
  by (simp add: consistent_def start_def)

lemma consistent_initialize:
  assumes "consistent rt"
  shows "consistent (snd (initialize_call k rt))"
proof (cases "models (statics rt) k \<noteq> None \<or> initializationPromises (statics rt) k \<noteq> None")
  case True
  with assms show ?thesis by (auto simp: initialize_call_def)
next
  case False
  have "p < Suc (next_promise rt)
        \<and> ((initializationPromises (statics rt))(k \<mapsto> next_promise rt)) (task_key t) = Some p"
    if "((tasks rt)(next_promise rt \<mapsto> LoadingModel k)) p = Some t" for p t
  proof (cases "p = next_promise rt")
    case True
    with that show ?thesis by auto
  next
    case f: False
    with that have t: "tasks rt p = Some t" by simp
    with assms have "p < next_promise rt" "initializationPromises (statics rt) (task_key t) = Some p"
      by (auto simp: consistent_def)
    with False show ?thesis by auto
  qed
  with False show ?thesis
    by (simp add: initialize_call_def consistent_def Let_def)
qed

lemma consistent_settle:
  assumes "consistent rt" and "tasks rt p = Some t" and "task_key t = k"
  shows "consistent (settle p k outcome rt)"
proof -
  have "q < next_promise rt \<and> ((initializationPromises (statics rt))(k := None)) (task_key u) = Some q"
    if "((tasks rt)(p := None)) q = Some u" for q u
  proof -
    from that have q: "q \<noteq> p" "tasks rt q = Some u" by (auto split: if_splits)
    with assms(1) have a: "q < next_promise rt" "initializationPromises (statics rt) (task_key u) = Some q"
      by (auto simp: consistent_def)
    from assms have "initializationPromises (statics rt) k = Some p" by (auto simp: consistent_def)
    with a q(1) have "task_key u \<noteq> k" by auto
    with a show ?thesis by simp
  qed
  then show ?thesis by (simp add: settle_def consistent_def)
qed

lemma consistent_model_loaded:
  assumes "consistent rt"
  shows "consistent (model_loaded p result rt)"
proof (cases "tasks rt p")
  case None
  with assms show ?thesis by (simp add: model_loaded_def)
next
  case (Some t)
  show ?thesis
  proof (cases t)
    case (LoadingModel k)
    show ?thesis
    proof (cases result)
      case (Inl e)
      with Some LoadingModel consistent_settle [OF assms Some, of k "Rejected e"]
      show ?thesis by (simp add: model_loaded_def)
    next
      case (Inr mdl)
      have "q < next_promise rt \<and> initializationPromises (statics rt) (task_key u) = Some q"
        if "((tasks rt)(p \<mapsto> LoadingTokenizer k mdl)) q = Some u" for q u
      proof (cases "q = p")
        case True
        from assms Some LoadingModel
        have "p < next_promise rt \<and> initializationPromises (statics rt) (task_key t) = Some p"
          unfolding consistent_def by blast
        with True that LoadingModel show ?thesis by auto
      next
        case False
        with that assms show ?thesis by (auto simp: consistent_def)
      qed
      with Some LoadingModel Inr show ?thesis
        by (simp add: model_loaded_def consistent_def)
    qed
  next
    case (LoadingTokenizer k mdl)
    with Some assms show ?thesis by (simp add: model_loaded_def)
  qed
qed

lemma consistent_tokenizer_loaded:
  assumes "consistent rt"
  shows "consistent (tokenizer_loaded p result rt)"
proof (cases "tasks rt p")
  case None
  with assms show ?thesis by (simp add: tokenizer_loaded_def)
next
  case (Some t)
  show ?thesis
  proof (cases t)
    case (LoadingModel k)
    with Some assms show ?thesis by (simp add: tokenizer_loaded_def)
  next
    case (LoadingTokenizer k mdl)
    show ?thesis
    proof (cases result)
      case (Inl e)
      with Some LoadingTokenizer consistent_settle [OF assms Some, of k "Rejected e"]
      show ?thesis by (simp add: tokenizer_loaded_def)
    next
      case (Inr tok)
      let ?rt = "rt\<lparr>statics := (statics rt)
                         \<lparr>models := (models (statics rt))(k \<mapsto> mdl),
                          tokenizers := (tokenizers (statics rt))(k \<mapsto> tok)\<rparr>\<rparr>"
      from assms have c: "consistent ?rt" by (simp add: consistent_def)
      from Some have t: "tasks ?rt p = Some t" by simp
      from consistent_settle [OF c t, of k Fulfilled] Some LoadingTokenizer Inr
      show ?thesis by (simp add: tokenizer_loaded_def)
    qed
  qed
qed

lemma consistent_step: "consistent rt \<Longrightarrow> consistent (step rt ev)"
  by (cases ev) (simp_all add: consistent_initialize consistent_model_loaded consistent_tokenizer_loaded)

lemma consistent_run: "consistent rt \<Longrightarrow> consistent (run rt events)"
  unfolding run_def by (induction events arbitrary: rt) (simp_all add: consistent_step)

lemma first_call:
  assumes "models (statics rt) k = None" and "initializationPromises (statics rt) k = None"
  shows "fst (initialize_call k rt) = Awaiting (next_promise rt)"
    and "in_flight k (next_promise rt) (snd (initialize_call k rt))"
    and "model_loads (snd (initialize_call k rt)) = model_loads rt @ [k]"
    and "tokenizer_loads (snd (initialize_call k rt)) = tokenizer_loads rt"
  using assms by (simp_all add: initialize_call_def in_flight_def Let_def)

lemma waiting_call: "in_flight k p rt \<Longrightarrow> initialize_call k rt = (Awaiting p, rt)"
  by (auto simp: initialize_call_def in_flight_def)

lemma in_flight_task_key:
  assumes "consistent rt" and "in_flight k p rt" and "tasks rt q = Some t" and "q \<noteq> p"
  shows "task_key t \<noteq> k"
proof
  assume "task_key t = k"
  with assms(1,3) have "initializationPromises (statics rt) k = Some q"
    unfolding consistent_def by blast
  with assms(2,4) show False by (simp add: in_flight_def)
qed

lemma in_flight_settle_other:
  assumes "in_flight k p rt" and "q \<noteq> p" and "k' \<noteq> k"
  shows "in_flight k p (settle q k' outcome rt)"
  using assms by (auto simp: in_flight_def settle_def)

lemma in_flight_initialize:
  assumes "consistent rt" and "in_flight k p rt"
  shows "in_flight k p (snd (initialize_call k' rt))"
    and "count_list (model_loads (snd (initialize_call k' rt))) k = count_list (model_loads rt) k"
    and "tokenizer_loads (snd (initialize_call k' rt)) = tokenizer_loads rt"
    and "tasks (snd (initialize_call k' rt)) p = tasks rt p"
proof -
  from assms(2) obtain t where t: "tasks rt p = Some t" by (auto simp: in_flight_def)
  with assms(1) have lt: "p < next_promise rt" unfolding consistent_def by blast
  have k: "k' \<noteq> k" if "models (statics rt) k' = None" "initializationPromises (statics rt) k' = None"
    using that assms(2) by (auto simp: in_flight_def)
  show "in_flight k p (snd (initialize_call k' rt))"
    using assms(2) lt k by (auto simp: initialize_call_def in_flight_def Let_def split: option.splits)
  show "count_list (model_loads (snd (initialize_call k' rt))) k = count_list (model_loads rt) k"
    using k by (auto simp: initialize_call_def Let_def split: option.splits)
  show "tokenizer_loads (snd (initialize_call k' rt)) = tokenizer_loads rt"
    by (auto simp: initialize_call_def Let_def split: option.splits)
  show "tasks (snd (initialize_call k' rt)) p = tasks rt p"
    using lt by (auto simp: initialize_call_def Let_def split: option.splits)
qed

lemma in_flight_model_loaded:
  assumes "consistent rt" and "in_flight k p rt" and "\<not> completes p (ModelLoaded q result)"
  shows "in_flight k p (model_loaded q result rt)"
    and "model_loads (model_loaded q result rt) = model_loads rt"
proof -
  show "model_loads (model_loaded q result rt) = model_loads rt"
    by (auto simp: model_loaded_def settle_def split: option.splits task.splits sum.splits)
  show "in_flight k p (model_loaded q result rt)"
  proof (cases "tasks rt q")
    case None
    with assms(2) show ?thesis by (simp add: model_loaded_def)
  next
    case (Some t)
    show ?thesis
    proof (cases t)
      case (LoadingTokenizer k' mdl)
      with Some assms(2) show ?thesis by (simp add: model_loaded_def)
    next
      case (LoadingModel k')
      show ?thesis
      proof (cases result)
        case (Inl e)
        with assms(3) have qp: "q \<noteq> p" by simp
        from in_flight_task_key [OF assms(1,2) Some qp] LoadingModel have "k' \<noteq> k" by simp
        from in_flight_settle_other [OF assms(2) qp this] Some LoadingModel Inl
        show ?thesis by (simp add: model_loaded_def)
      next
        case (Inr mdl)
        show ?thesis
        proof (cases "q = p")
          case True
          with Some LoadingModel assms(2) have "k' = k" by (auto simp: in_flight_def)
          with True Some LoadingModel Inr assms(2) show ?thesis
            by (auto simp: model_loaded_def in_flight_def)
        next
          case False
          with Some LoadingModel Inr assms(2) show ?thesis
            by (auto simp: model_loaded_def in_flight_def)
        qed
      qed
    qed
  qed
qed

lemma in_flight_tokenizer_loaded:
  assumes "consistent rt" and "in_flight k p rt" and "\<not> completes p (TokenizerLoaded q result)"
  shows "in_flight k p (tokenizer_loaded q result rt)"
    and "model_loads (tokenizer_loaded q result rt) = model_loads rt"
    and "tokenizer_loads (tokenizer_loaded q result rt) = tokenizer_loads rt"
    and "tasks (tokenizer_loaded q result rt) p = tasks rt p"
proof -
  from assms(3) have qp: "q \<noteq> p" by simp
  show "model_loads (tokenizer_loaded q result rt) = model_loads rt"
    by (auto simp: tokenizer_loaded_def settle_def split: option.splits task.splits sum.splits)
  show "tokenizer_loads (tokenizer_loaded q result rt) = tokenizer_loads rt"
    by (auto simp: tokenizer_loaded_def settle_def split: option.splits task.splits sum.splits)
  show "tasks (tokenizer_loaded q result rt) p = tasks rt p"
    using qp by (auto simp: tokenizer_loaded_def settle_def split: option.splits task.splits sum.splits)
  show "in_flight k p (tokenizer_loaded q result rt)"
  proof (cases "tasks rt q")
    case None
    with assms(2) show ?thesis by (simp add: tokenizer_loaded_def)
  next
    case (Some t)
    show ?thesis
    proof (cases t)
      case (LoadingModel k')
      with Some assms(2) show ?thesis by (simp add: tokenizer_loaded_def)
    next
      case (LoadingTokenizer k' mdl)
      from in_flight_task_key [OF assms(1,2) Some qp] LoadingTokenizer have kk: "k' \<noteq> k" by simp
      show ?thesis
      proof (cases result)
        case (Inl e)
        from in_flight_settle_other [OF assms(2) qp kk] Some LoadingTokenizer Inl
        show ?thesis by (simp add: tokenizer_loaded_def)
      next
        case (Inr tok)
        let ?rt = "rt\<lparr>statics := (statics rt)
                         \<lparr>models := (models (statics rt))(k' \<mapsto> mdl),
                          tokenizers := (tokenizers (statics rt))(k' \<mapsto> tok)\<rparr>\<rparr>"
        from assms(2) kk have "in_flight k p ?rt" by (auto simp: in_flight_def)
        from in_flight_settle_other [OF this qp kk] Some LoadingTokenizer Inr
        show ?thesis by (simp add: tokenizer_loaded_def)
      qed
    qed
  qed
qed

lemma tokenizer_count_model_loaded:
  assumes "consistent rt" and "in_flight k p rt" and "\<not> completes p (ModelLoaded q result)"
  shows "tokenizer_count k p (model_loaded q result rt) = tokenizer_count k p rt"
proof (cases "tasks rt q")
  case None
  then show ?thesis by (simp add: model_loaded_def)
next
  case (Some t)
  show ?thesis
  proof (cases t)
    case (LoadingTokenizer k' mdl)
    with Some show ?thesis by (simp add: model_loaded_def)
  next
    case (LoadingModel k')
    show ?thesis
    proof (cases result)
      case (Inl e)
      with assms(3) have qp: "q \<noteq> p" by simp
      with Some LoadingModel Inl show ?thesis
        by (simp add: model_loaded_def settle_def tokenizer_count_def tokenizer_phase_def)
    next
      case (Inr mdl)
      show ?thesis
      proof (cases "q = p")
        case True
        with Some LoadingModel assms(2) have "k' = k" by (auto simp: in_flight_def)
        with True Some LoadingModel Inr show ?thesis
          by (simp add: model_loaded_def tokenizer_count_def tokenizer_phase_def)
      next
        case False
        from in_flight_task_key [OF assms(1,2) Some False] LoadingModel have "k' \<noteq> k" by simp
        with False Some LoadingModel Inr show ?thesis
          by (simp add: model_loaded_def tokenizer_count_def tokenizer_phase_def)
      qed
    qed
  qed
qed

lemma in_flight_step:
  assumes "consistent rt" and "in_flight k p rt" and "\<not> completes p ev"
  shows "in_flight k p (step rt ev)"
    and "count_list (model_loads (step rt ev)) k = count_list (model_loads rt) k"
    and "tokenizer_count k p (step rt ev) = tokenizer_count k p rt"
proof -
  show "in_flight k p (step rt ev)"
    using assms
    by (cases ev) (simp_all add: in_flight_initialize in_flight_model_loaded in_flight_tokenizer_loaded)
  show "count_list (model_loads (step rt ev)) k = count_list (model_loads rt) k"
    using assms
    by (cases ev) (simp_all add: in_flight_initialize in_flight_model_loaded in_flight_tokenizer_loaded)
  show "tokenizer_count k p (step rt ev) = tokenizer_count k p rt"
    using assms
    by (cases ev)
       (simp_all add: tokenizer_count_model_loaded,
        simp_all add: tokenizer_count_def tokenizer_phase_def in_flight_initialize
          in_flight_tokenizer_loaded)
qed

lemma in_flight_run:
  assumes "consistent rt" and "in_flight k p rt" and "\<forall>ev \<in> set events. \<not> completes p ev"
  shows "in_flight k p (run rt events)
       \<and> count_list (model_loads (run rt events)) k = count_list (model_loads rt) k
       \<and> tokenizer_count k p (run rt events) = tokenizer_count k p rt
       \<and> consistent (run rt events)"
  using assms
proof (induction events arbitrary: rt)
  case Nil
  then show ?case by (simp add: run_def)
next
  case (Cons ev events)
  from Cons.prems have n: "\<not> completes p ev" "\<forall>ev \<in> set events. \<not> completes p ev" by simp_all
  note s = in_flight_step [OF Cons.prems(1,2) n(1)]
  from Cons.IH [OF consistent_step [OF Cons.prems(1)] s(1) n(2)] s(2,3)
  show ?case by (simp add: run_def)
qed

lemma completion:
  assumes "in_flight k p rt"
  shows "tasks rt p = Some (LoadingModel k) \<Longrightarrow>
           failed_for_all k p e (step rt (ModelLoaded p (Inl e)))"
    and "tasks rt p = Some (LoadingTokenizer k mdl) \<Longrightarrow>
           failed_for_all k p e (step rt (TokenizerLoaded p (Inl e)))"
    and "tasks rt p = Some (LoadingTokenizer k mdl) \<Longrightarrow>
           loaded_for_all k p mdl tok (step rt (TokenizerLoaded p (Inr tok)))"
  using assms
  by (simp_all add: in_flight_def failed_for_all_def loaded_for_all_def model_loaded_def
      tokenizer_loaded_def settle_def initialize_call_def)

text \<open>
  C6. From a state in which \<open>k\<close> is neither loaded nor being loaded, a first call of
  \<open>initialize\<close> for \<open>k\<close> starts the load and awaits its promise \<open>p\<close>. Whatever calls of
  \<open>initialize\<close> (for any model name) and ends of loads follow, as long as none ends the
  initialization behind \<open>p\<close>: every call for \<open>k\<close> awaits the same \<open>p\<close> and changes
  nothing, \<open>from_pretrained\<close> has been called exactly once more for the model \<open>k\<close> and
  at most once more for its tokenizer, and the initialization is still in flight. When
  it ends, the one promise is rejected with the error of the failed load and nothing is
  stored, or it is fulfilled and the loaded model and tokenizer are stored under \<open>k\<close>:
  all callers wait on that promise, so all find the same.
\<close>

theorem initialize_once:
  assumes "consistent rt" and "models (statics rt) k = None"
    and "initializationPromises (statics rt) k = None"
    and "\<forall>ev \<in> set events. \<not> completes (next_promise rt) ev"
  shows "fst (initialize_call k rt) = Awaiting (next_promise rt)
       \<and> (\<forall>n \<le> length events.
             initialize_call k (after_first k rt (take n events))
             = (Awaiting (next_promise rt), after_first k rt (take n events)))
       \<and> in_flight k (next_promise rt) (after_first k rt events)
       \<and> count_list (model_loads (after_first k rt events)) k = Suc (count_list (model_loads rt) k)
       \<and> count_list (tokenizer_loads (after_first k rt events)) k
           \<le> Suc (count_list (tokenizer_loads rt) k)
       \<and> (\<forall>e. tasks (after_first k rt events) (next_promise rt) = Some (LoadingModel k) \<longrightarrow>
              failed_for_all k (next_promise rt) e
                (step (after_first k rt events) (ModelLoaded (next_promise rt) (Inl e))))
       \<and> (\<forall>e mdl. tasks (after_first k rt events) (next_promise rt) = Some (LoadingTokenizer k mdl) \<longrightarrow>
              failed_for_all k (next_promise rt) e
                (step (after_first k rt events) (TokenizerLoaded (next_promise rt) (Inl e))))
       \<and> (\<forall>mdl tok. tasks (after_first k rt events) (next_promise rt) = Some (LoadingTokenizer k mdl) \<longrightarrow>
              loaded_for_all k (next_promise rt) mdl tok
                (step (after_first k rt events) (TokenizerLoaded (next_promise rt) (Inr tok))))"
proof -
  let ?p = "next_promise rt"
  let ?rt1 = "snd (initialize_call k rt)"
  note f = first_call [OF assms(2,3)]
  have c1: "consistent ?rt1" by (rule consistent_initialize [OF assms(1)])
  have run: "in_flight k ?p (after_first k rt evs)
       \<and> count_list (model_loads (after_first k rt evs)) k = Suc (count_list (model_loads rt) k)
       \<and> tokenizer_count k ?p (after_first k rt evs) = count_list (tokenizer_loads rt) k"
    if "\<forall>ev \<in> set evs. \<not> completes ?p ev" for evs
  proof -
    from f(2) have "\<not> tokenizer_phase k ?p ?rt1"
      using assms(2,3) by (simp add: tokenizer_phase_def initialize_call_def Let_def)
    then have "tokenizer_count k ?p ?rt1 = count_list (tokenizer_loads rt) k"
      by (simp add: tokenizer_count_def f(4))
    with in_flight_run [OF c1 f(2) that] show ?thesis
      by (simp add: after_first_def f(3))
  qed
  have w: "initialize_call k (after_first k rt (take n events))
             = (Awaiting ?p, after_first k rt (take n events))" for n
  proof (rule waiting_call)
    have "\<forall>ev \<in> set (take n events). \<not> completes ?p ev"
      using assms(4) by (auto dest: in_set_takeD)
    from run [OF this] show "in_flight k ?p (after_first k rt (take n events))" by simp
  qed
  note r = run [OF assms(4)]
  have t: "count_list (tokenizer_loads (after_first k rt events)) k
           \<le> Suc (count_list (tokenizer_loads rt) k)"
    using r by (auto simp: tokenizer_count_def split: if_splits)
  from r have fl: "in_flight k ?p (after_first k rt events)" by simp
  show ?thesis
    using f(1) w r t completion [OF fl] by simp
qed

text \<open>
  C6 from the start of the process: three calls for \<open>m\<close>, a call for another model whose
  load fails, and the end of the load of the model of \<open>m\<close> in between; then the
  tokenizer arrives.
\<close>

theorem initialize_once_witness:
  "fst (initialize_call ''m'' start) = Awaiting 0
   \<and> initialize_call ''m'' (after_first ''m'' start sample_events)
       = (Awaiting 0, after_first ''m'' start sample_events)
   \<and> count_list (model_loads (after_first ''m'' start sample_events)) ''m'' = 1
   \<and> count_list (tokenizer_loads (after_first ''m'' start sample_events)) ''m'' \<le> 1
   \<and> loaded_for_all ''m'' 0 single_logit_model pad_tokenizer
       (step (after_first ''m'' start sample_events) (TokenizerLoaded 0 (Inr pad_tokenizer)))"
proof -
  have n: "next_promise start = 0" by (simp add: start_def)
  have a: "models (statics start) ''m'' = None" "initializationPromises (statics start) ''m'' = None"
    by (simp_all add: start_def)
  have e: "\<forall>ev \<in> set sample_events. \<not> completes (next_promise start) ev"
    by (simp add: sample_events_def n)
  have t: "tasks (after_first ''m'' start sample_events) 0
           = Some (LoadingTokenizer ''m'' single_logit_model)"
    by (simp add: after_first_def run_def sample_events_def start_def initialize_call_def
        model_loaded_def settle_def Let_def)
  note th = initialize_once [OF consistent_start a e, unfolded n]
  from th have 1: "fst (initialize_call ''m'' start) = Awaiting 0" by blast
  from th have "\<forall>n \<le> length sample_events.
             initialize_call ''m'' (after_first ''m'' start (take n sample_events))
             = (Awaiting 0, after_first ''m'' start (take n sample_events))" by blast
  from this [rule_format, of "length sample_events"]
  have 2: "initialize_call ''m'' (after_first ''m'' start sample_events)
       = (Awaiting 0, after_first ''m'' start sample_events)" by simp
  from th have 3: "count_list (model_loads (after_first ''m'' start sample_events)) ''m'' = 1"
    by (simp add: start_def)
  from th have 4: "count_list (tokenizer_loads (after_first ''m'' start sample_events)) ''m'' \<le> 1"
    by (simp add: start_def)
  from th t have 5: "loaded_for_all ''m'' 0 single_logit_model pad_tokenizer
       (step (after_first ''m'' start sample_events) (TokenizerLoaded 0 (Inr pad_tokenizer)))"
    by blast
  from 1 2 3 4 5 show ?thesis by blast
qed

end
